theory Spec2Isabelle
  imports Main "HOL-Library.Multiset"
begin

section \<open>The store: tables of the migrations\<close>

text \<open>
  The tables are those of the schema migration (\<^verbatim>\<open>20250312195747_ancient_frog.sql\<close>,
  \<^verbatim>\<open>CREATE TABLE notes / note_sequences / settings\<close>). A table is the list of its rows; a
  \<^verbatim>\<open>uuid\<close> is a natural number, a nullable \<^verbatim>\<open>uuid\<close> an option, a timestamp a natural
  number. SQL \<^verbatim>\<open>integer\<close> is an \<open>int\<close> with the 32-bit range check written out where
  the functions compute (\<open>sql_integer\<close>). Only the columns the ordering functions read
  or write are kept.

  The schema's constraints, as the store applies them to the statements below:

  \<^item> \<^verbatim>\<open>UNIQUE (project_id, parent_id, sequence)\<close> is checked for each row an \<^verbatim>\<open>UPDATE\<close>
    writes, at the moment the row is written, against the other rows as they are
    then: those the statement has already visited with their new values, the others
    with their old ones. A row whose \<^verbatim>\<open>parent_id\<close> is \<^verbatim>\<open>NULL\<close> conflicts with no row.
  \<^item> \<^verbatim>\<open>parent_id ... REFERENCES notes(id)\<close>, of \<^verbatim>\<open>notes\<close> and of \<^verbatim>\<open>note_sequences\<close>, is
    checked at the end of an \<^verbatim>\<open>UPDATE\<close> that changes the column; \<^verbatim>\<open>ON DELETE CASCADE\<close>
    deletes the rows that name a deleted note.
  \<^item> \<^verbatim>\<open>UNIQUE (note_id)\<close> (the primary key) is the hypothesis \<open>distinct (map note_id t)\<close>
    of the theorems that need it; no statement below writes the column.

  A statement that fails a check aborts the function that issued it, and what the
  function had written is rolled back: the result of the call is the error.
\<close>

type_synonym uuid = nat

record note_sequence =
  note_id :: uuid
  project_id :: uuid
  parent_id :: "uuid option"
  sequence :: int

record note_row =
  n_id :: uuid
  n_project_id :: uuid
  n_parent_id :: "uuid option"

record setting =
  s_id :: uuid
  note_count :: int
  last_modified_at :: nat

record database =
  db_notes :: "note_row list"
  db_note_sequences :: "note_sequence list"
  db_settings :: "setting list"

text \<open>The exception the SQL functions raise
  (\<^verbatim>\<open>RAISE EXCEPTION 'Note with ID % not found in note_sequences'\<close>), and the three that
  the store raises on their statements: \<^verbatim>\<open>unique_violation\<close> (23505),
  \<^verbatim>\<open>foreign_key_violation\<close> (23503) and \<^verbatim>\<open>numeric_value_out_of_range\<close> (22003).\<close>

datatype error = NoteNotFound uuid | UniqueViolation | ForeignKeyViolation | NumericValueOutOfRange

text \<open>One statement after another: the first error ends the function.\<close>

definition and_then :: "error + 'a \<Rightarrow> ('a \<Rightarrow> error + 'b) \<Rightarrow> error + 'b" where
  "and_then m k = (case m of Inl e \<Rightarrow> Inl e | Inr x \<Rightarrow> k x)"

text \<open>The result of an \<^verbatim>\<open>integer\<close> addition or subtraction.\<close>

definition sql_integer :: "int \<Rightarrow> error + int" where
  "sql_integer v = (if - 2147483648 \<le> v \<and> v \<le> 2147483647 then Inr v else Inl NumericValueOutOfRange)"

subsection \<open>SQL statements on a table\<close>

text \<open>\<^verbatim>\<open>UPDATE t SET ... WHERE c\<close> on a table without a checked constraint on the written
  columns: every row is tested and rewritten against the table as it was before the
  statement. \<^verbatim>\<open>DELETE FROM t WHERE c\<close> keeps the other rows.\<close>

definition sql_update :: "('a \<Rightarrow> bool) \<Rightarrow> ('a \<Rightarrow> 'a) \<Rightarrow> 'a list \<Rightarrow> 'a list" where
  "sql_update c f t = map (\<lambda>r. if c r then f r else r) t"

definition sql_delete :: "('a \<Rightarrow> bool) \<Rightarrow> 'a list \<Rightarrow> 'a list" where
  "sql_delete c t = filter (\<lambda>r. \<not> c r) t"

text \<open>
  What SQL leaves to the store: the order in which an \<^verbatim>\<open>UPDATE\<close> of \<^verbatim>\<open>note_sequences\<close>
  visits the rows of the table (\<open>visit\<close>, as positions in the list), and the order in
  which \<^verbatim>\<open>ORDER BY sequence\<close> returns rows (\<open>order_by_sequence\<close>), which is open among rows
  of equal sequence. Both may depend on the table at hand; neither is the order of the
  list. The functions below take the store's choice as their first argument.
\<close>

record store_order =
  visit :: "note_sequence list \<Rightarrow> nat list"
  order_by_sequence :: "note_sequence list \<Rightarrow> note_sequence list"

text \<open>The row at position \<open>i\<close> shares \<^verbatim>\<open>(project_id, parent_id, sequence)\<close>, with a
  \<^verbatim>\<open>parent_id\<close> that is not \<^verbatim>\<open>NULL\<close>, with another row of the table.\<close>

definition unique_conflict :: "note_sequence list \<Rightarrow> nat \<Rightarrow> bool" where
  "unique_conflict t i \<longleftrightarrow>
     parent_id (t ! i) \<noteq> None \<and>
     list_ex (\<lambda>j. j \<noteq> i \<and> project_id (t ! j) = project_id (t ! i)
                   \<and> parent_id (t ! j) = parent_id (t ! i)
                   \<and> sequence (t ! j) = sequence (t ! i)) [0..<length t]"

text \<open>\<^verbatim>\<open>UPDATE note_sequences SET ... WHERE c\<close>, row by row in the order \<open>ord\<close>: a row that
  meets \<open>c\<close> is rewritten by \<open>f\<close> (which fails when its arithmetic leaves the integer
  range) and the unique index is checked at once. A row is visited once, so \<open>c\<close> and
  \<open>f\<close> see it as it was before the statement.\<close>

fun update_rows ::
  "(note_sequence \<Rightarrow> bool) \<Rightarrow> (note_sequence \<Rightarrow> error + note_sequence) \<Rightarrow> nat list
   \<Rightarrow> note_sequence list \<Rightarrow> error + note_sequence list" where
  "update_rows c f [] t = Inr t"
| "update_rows c f (i # ord) t =
     (if i < length t \<and> c (t ! i) then
        (case f (t ! i) of
           Inl e \<Rightarrow> Inl e
         | Inr r \<Rightarrow> if unique_conflict (t[i := r]) i then Inl UniqueViolation
                    else update_rows c f ord (t[i := r]))
      else update_rows c f ord t)"

definition update_note_sequences ::
  "store_order \<Rightarrow> (note_sequence \<Rightarrow> bool) \<Rightarrow> (note_sequence \<Rightarrow> error + note_sequence)
   \<Rightarrow> note_sequence list \<Rightarrow> error + note_sequence list" where
  "update_note_sequences st c f t = update_rows c f (visit st t) t"

text \<open>\<^verbatim>\<open>SET sequence = v\<close>, \<^verbatim>\<open>SET sequence = sequence - 1\<close> and
  \<^verbatim>\<open>SET sequence = sequence + 1\<close>.\<close>

definition set_sequence :: "int \<Rightarrow> note_sequence \<Rightarrow> error + note_sequence" where
  "set_sequence v r = Inr (r\<lparr>sequence := v\<rparr>)"

definition sequence_minus_one :: "note_sequence \<Rightarrow> error + note_sequence" where
  "sequence_minus_one r = and_then (sql_integer (sequence r - 1)) (\<lambda>v. Inr (r\<lparr>sequence := v\<rparr>))"

definition sequence_plus_one :: "note_sequence \<Rightarrow> error + note_sequence" where
  "sequence_plus_one r = and_then (sql_integer (sequence r + 1)) (\<lambda>v. Inr (r\<lparr>sequence := v\<rparr>))"

text \<open>The foreign key of a \<^verbatim>\<open>parent_id\<close> column: \<^verbatim>\<open>NULL\<close>, or the \<^verbatim>\<open>id\<close> of a row of
  \<^verbatim>\<open>notes\<close>.\<close>

definition is_note :: "note_row list \<Rightarrow> uuid option \<Rightarrow> bool" where
  "is_note ns par = (case par of None \<Rightarrow> True | Some p \<Rightarrow> p \<in> set (map n_id ns))"

text \<open>\<^verbatim>\<open>project_id = p AND parent_id IS NOT DISTINCT FROM par\<close>: the sibling group of
  \<open>(p, par)\<close>; \<open>None\<close> is the group of the root notes.\<close>

definition in_group :: "uuid \<Rightarrow> uuid option \<Rightarrow> note_sequence \<Rightarrow> bool" where
  "in_group p par r \<longleftrightarrow> project_id r = p \<and> parent_id r = par"

definition group_rows :: "note_sequence list \<Rightarrow> uuid \<Rightarrow> uuid option \<Rightarrow> note_sequence list" where
  "group_rows t p par = filter (in_group p par) t"

text \<open>SQL \<^verbatim>\<open>MAX\<close> is \<^verbatim>\<open>NULL\<close> on no rows.\<close>

fun sql_max :: "int list \<Rightarrow> int option" where
  "sql_max [] = None"
| "sql_max (x # xs) = (case sql_max xs of None \<Rightarrow> Some x | Some m \<Rightarrow> Some (max x m))"

definition coalesce :: "int option \<Rightarrow> int \<Rightarrow> int" where
  "coalesce v d = (case v of None \<Rightarrow> d | Some x \<Rightarrow> x)"

text \<open>\<^verbatim>\<open>SELECT COALESCE(MAX(sequence), 0) ... WHERE project_id = p AND parent_id IS NOT
  DISTINCT FROM par\<close>\<close>

definition max_sequence :: "note_sequence list \<Rightarrow> uuid \<Rightarrow> uuid option \<Rightarrow> int" where
  "max_sequence t p par = coalesce (sql_max (map sequence (group_rows t p par))) 0"

subsection \<open>\<^verbatim>\<open>get_next_sequence\<close>\<close>

text \<open>\<^verbatim>\<open>SELECT COALESCE(MAX(sequence), 0) + 1 INTO next_seq\<close>\<close>

definition get_next_sequence :: "note_sequence list \<Rightarrow> uuid \<Rightarrow> uuid option \<Rightarrow> error + int" where
  "get_next_sequence t p_project_id p_parent_id =
     sql_integer (max_sequence t p_project_id p_parent_id + 1)"

subsection \<open>\<^verbatim>\<open>normalize_note_sequences\<close>\<close>

text \<open>
  The loop \<^verbatim>\<open>FOR note_record IN (SELECT note_id ... ORDER BY sequence) LOOP UPDATE ... SET
  sequence = current_seq WHERE note_id = note_record.note_id; current_seq := current_seq + 1\<close>.
  The query is evaluated once, before the first update; each round is one \<^verbatim>\<open>UPDATE\<close>,
  with the unique index checked, and one addition, the last round's included.
\<close>

fun renumber :: "store_order \<Rightarrow> note_sequence list \<Rightarrow> uuid list \<Rightarrow> int \<Rightarrow> error + note_sequence list" where
  "renumber st t [] current_seq = Inr t"
| "renumber st t (i # ids) current_seq =
     and_then (update_note_sequences st (\<lambda>r. note_id r = i) (set_sequence current_seq) t)
       (\<lambda>t'. and_then (sql_integer (current_seq + 1)) (\<lambda>next_seq. renumber st t' ids next_seq))"

definition normalize_note_sequences ::
  "store_order \<Rightarrow> note_sequence list \<Rightarrow> uuid \<Rightarrow> uuid option \<Rightarrow> error + note_sequence list" where
  "normalize_note_sequences st t target_project_id target_parent_id =
     renumber st t
       (map note_id (order_by_sequence st (group_rows t target_project_id target_parent_id))) 1"

subsection \<open>\<^verbatim>\<open>move_note\<close> (\<^verbatim>\<open>20250312200023_violet_hall.sql\<close>)\<close>

definition v_temp_sequence :: int where
  "v_temp_sequence = 9999999"

text \<open>\<^verbatim>\<open>GREATEST(1, LEAST(p_new_position, v_max_sequence + 1))\<close>, with the maximum read from
  the target group before anything is written.\<close>

definition clamp_position ::
  "note_sequence list \<Rightarrow> uuid \<Rightarrow> uuid option \<Rightarrow> int \<Rightarrow> error + int" where
  "clamp_position t v_project_id p_new_parent_id p_new_position =
     and_then (sql_integer (max_sequence t v_project_id p_new_parent_id + 1))
       (\<lambda>above. Inr (max 1 (min p_new_position above)))"

text \<open>STEP 1: the note goes to the new parent with the temporary sequence. The
  statement changes \<^verbatim>\<open>parent_id\<close> when the row had another parent; the new one must then
  be a note.\<close>

definition park ::
  "store_order \<Rightarrow> note_row list \<Rightarrow> note_sequence list \<Rightarrow> uuid \<Rightarrow> uuid option
   \<Rightarrow> error + note_sequence list" where
  "park st ns t p_note_id p_new_parent_id =
     and_then
       (update_note_sequences st (\<lambda>r. note_id r = p_note_id)
          (\<lambda>r. Inr (r\<lparr>parent_id := p_new_parent_id, sequence := v_temp_sequence\<rparr>)) t)
       (\<lambda>t'. if list_ex (\<lambda>r. note_id r = p_note_id \<and> parent_id r \<noteq> p_new_parent_id) t
                  \<and> \<not> is_note ns p_new_parent_id
              then Inl ForeignKeyViolation else Inr t')"

text \<open>STEP 2: \<^verbatim>\<open>UPDATE notes SET parent_id = p_new_parent_id WHERE id = p_note_id\<close>, with
  the foreign key of \<^verbatim>\<open>notes.parent_id\<close>.\<close>

definition set_parent :: "note_row list \<Rightarrow> uuid \<Rightarrow> uuid option \<Rightarrow> error + note_row list" where
  "set_parent ns p_note_id p_new_parent_id =
     (if list_ex (\<lambda>x. n_id x = p_note_id \<and> n_parent_id x \<noteq> p_new_parent_id) ns
         \<and> \<not> is_note ns p_new_parent_id
      then Inl ForeignKeyViolation
      else Inr (sql_update (\<lambda>x. n_id x = p_note_id) (\<lambda>x. x\<lparr>n_parent_id := p_new_parent_id\<rparr>) ns))"

text \<open>STEP 3: the shifts, by case.\<close>

definition shift_sequences ::
  "store_order \<Rightarrow> note_sequence list \<Rightarrow> uuid \<Rightarrow> uuid option \<Rightarrow> int \<Rightarrow> uuid option \<Rightarrow> int
   \<Rightarrow> error + note_sequence list" where
  "shift_sequences st t v_project_id v_old_parent_id v_old_sequence p_new_parent_id p_new_position =
     (if v_old_parent_id = p_new_parent_id then
        (if v_old_sequence < p_new_position then
           update_note_sequences st
             (\<lambda>r. in_group v_project_id p_new_parent_id r
                  \<and> sequence r > v_old_sequence \<and> sequence r \<le> p_new_position)
             sequence_minus_one t
         else
           update_note_sequences st
             (\<lambda>r. in_group v_project_id p_new_parent_id r
                  \<and> sequence r \<ge> p_new_position \<and> sequence r < v_old_sequence)
             sequence_plus_one t)
      else
        and_then
          (update_note_sequences st
             (\<lambda>r. in_group v_project_id v_old_parent_id r \<and> sequence r > v_old_sequence)
             sequence_minus_one t)
          (update_note_sequences st
             (\<lambda>r. in_group v_project_id p_new_parent_id r \<and> sequence r \<ge> p_new_position)
             sequence_plus_one))"

text \<open>STEP 4: the note gets its final sequence.\<close>

definition place ::
  "store_order \<Rightarrow> note_sequence list \<Rightarrow> uuid \<Rightarrow> int \<Rightarrow> error + note_sequence list" where
  "place st t p_note_id p_new_position =
     update_note_sequences st (\<lambda>r. note_id r = p_note_id) (set_sequence p_new_position) t"

text \<open>STEP 5: the old group is normalized, and the new one when it is another group.\<close>

definition normalize_affected ::
  "store_order \<Rightarrow> note_sequence list \<Rightarrow> uuid \<Rightarrow> uuid option \<Rightarrow> uuid option
   \<Rightarrow> error + note_sequence list" where
  "normalize_affected st t v_project_id v_old_parent_id p_new_parent_id =
     and_then (normalize_note_sequences st t v_project_id v_old_parent_id)
       (\<lambda>t'. if v_old_parent_id \<noteq> p_new_parent_id
              then normalize_note_sequences st t' v_project_id p_new_parent_id else Inr t')"

text \<open>The function. \<open>now\<close> is \<^verbatim>\<open>CURRENT_TIMESTAMP\<close>. \<^verbatim>\<open>SELECT ... INTO\<close> reads the row of
  the note; \<^verbatim>\<open>project_id\<close> is \<^verbatim>\<open>NOT NULL\<close>, so \<^verbatim>\<open>v_project_id IS NULL\<close> is "no row". The
  last statement writes a column of \<^verbatim>\<open>settings\<close> that no constraint reads.\<close>

definition move_note ::
  "store_order \<Rightarrow> database \<Rightarrow> nat \<Rightarrow> uuid \<Rightarrow> uuid option \<Rightarrow> int \<Rightarrow> error + database" where
  "move_note st db now p_note_id p_new_parent_id p_new_position =
     (case find (\<lambda>r. note_id r = p_note_id) (db_note_sequences db) of
        None \<Rightarrow> Inl (NoteNotFound p_note_id)
      | Some e \<Rightarrow>
          let v_project_id = project_id e;
              v_old_parent_id = parent_id e;
              v_old_sequence = sequence e
          in
          and_then (clamp_position (db_note_sequences db) v_project_id p_new_parent_id p_new_position)
            (\<lambda>pos.
          and_then (park st (db_notes db) (db_note_sequences db) p_note_id p_new_parent_id)
            (\<lambda>t1.
          and_then (set_parent (db_notes db) p_note_id p_new_parent_id)
            (\<lambda>ns.
          and_then (shift_sequences st t1 v_project_id v_old_parent_id v_old_sequence
                      p_new_parent_id pos)
            (\<lambda>t3.
          and_then (place st t3 p_note_id pos)
            (\<lambda>t4.
          and_then (normalize_affected st t4 v_project_id v_old_parent_id p_new_parent_id)
            (\<lambda>t5.
          Inr \<lparr>db_notes = ns,
               db_note_sequences = t5,
               db_settings = sql_update (\<lambda>s. s_id s = v_project_id)
                               (\<lambda>s. s\<lparr>last_modified_at := now\<rparr>) (db_settings db)\<rparr>)))))))"

subsection \<open>\<^verbatim>\<open>delete_note_tree\<close> (\<^verbatim>\<open>20250312195747_ancient_frog.sql\<close>)\<close>

text \<open>
  The recursive query \<^verbatim>\<open>descendants\<close>: the working table of one round holds the notes of
  one depth; the next round joins the notes whose \<^verbatim>\<open>parent_id\<close> is one of them, as long
  as \<^verbatim>\<open>d.depth < 50\<close>. \<^verbatim>\<open>UNION ALL\<close> keeps duplicates.
\<close>

definition child_ids :: "note_row list \<Rightarrow> uuid list \<Rightarrow> uuid list" where
  "child_ids ns level = concat (map (\<lambda>d. map n_id (filter (\<lambda>n. n_parent_id n = Some d) ns)) level)"

function descendants_from :: "note_row list \<Rightarrow> uuid list \<Rightarrow> nat \<Rightarrow> uuid list" where
  "descendants_from ns level depth =
     (if level = [] then []
      else level @ (if depth < 50 then descendants_from ns (child_ids ns level) (depth + 1) else []))"
  by pat_completeness auto
termination
  by (relation "measure (\<lambda>(ns, level, depth). 50 - depth)") auto

declare descendants_from.simps [simp del]

definition descendants :: "note_row list \<Rightarrow> uuid \<Rightarrow> uuid list" where
  "descendants ns root_note_id =
     descendants_from ns (map n_id (filter (\<lambda>n. n_id n = root_note_id) ns)) 1"

text \<open>
  \<^verbatim>\<open>DELETE FROM notes\<close> with the schema's foreign keys: \<^verbatim>\<open>notes.parent_id REFERENCES
  notes(id) ON DELETE CASCADE\<close> removes, round after round, the notes whose parent was
  removed; \<^verbatim>\<open>note_sequences.note_id\<close> and \<^verbatim>\<open>note_sequences.parent_id\<close> (both
  \<^verbatim>\<open>ON DELETE CASCADE\<close>) remove the order entries that name a removed note.
\<close>

definition references :: "uuid option \<Rightarrow> uuid list \<Rightarrow> bool" where
  "references par ids = (case par of None \<Rightarrow> False | Some p \<Rightarrow> p \<in> set ids)"

function cascade_notes :: "note_row list \<Rightarrow> uuid list \<Rightarrow> note_row list" where
  "cascade_notes ns removed =
     (if filter (\<lambda>n. references (n_parent_id n) removed) ns = [] then ns
      else cascade_notes (filter (\<lambda>n. \<not> references (n_parent_id n) removed) ns)
             (map n_id (filter (\<lambda>n. references (n_parent_id n) removed) ns)))"
  by pat_completeness auto
termination
proof (relation "measure (\<lambda>(ns, removed). length ns)")
  show "wf (measure (\<lambda>(ns, removed). length ns))" by simp
next
  fix ns :: "note_row list" and removed :: "uuid list"
  assume "filter (\<lambda>n. references (n_parent_id n) removed) ns \<noteq> []"
  then obtain x where "x \<in> set ns" "references (n_parent_id x) removed"
    by (auto simp: filter_empty_conv)
  then have "length (filter (\<lambda>n. \<not> references (n_parent_id n) removed) ns) < length ns"
    by (auto intro: length_filter_less)
  then show "((filter (\<lambda>n. \<not> references (n_parent_id n) removed) ns,
               map n_id (filter (\<lambda>n. references (n_parent_id n) removed) ns)),
              (ns, removed)) \<in> measure (\<lambda>(ns, removed). length ns)"
    by simp
qed

declare cascade_notes.simps [simp del]

definition delete_notes :: "note_row list \<Rightarrow> uuid list \<Rightarrow> note_row list" where
  "delete_notes ns ids =
     cascade_notes (sql_delete (\<lambda>n. n_id n \<in> set ids) ns)
       (map n_id (filter (\<lambda>n. n_id n \<in> set ids) ns))"

definition removed_ids :: "note_row list \<Rightarrow> note_row list \<Rightarrow> uuid list" where
  "removed_ids ns ns' = map n_id (filter (\<lambda>n. n \<notin> set ns') ns)"

definition cascade_sequences :: "note_sequence list \<Rightarrow> uuid list \<Rightarrow> note_sequence list" where
  "cascade_sequences t removed =
     sql_delete (\<lambda>r. note_id r \<in> set removed \<or> references (parent_id r) removed) t"

text \<open>\<^verbatim>\<open>DELETE FROM notes WHERE id = ANY(ids)\<close> on the whole store, cascades included.\<close>

definition delete_from_notes :: "database \<Rightarrow> uuid list \<Rightarrow> database" where
  "delete_from_notes db ids =
     (let ns' = delete_notes (db_notes db) ids
      in db\<lparr>db_notes := ns',
            db_note_sequences := cascade_sequences (db_note_sequences db) (removed_ids (db_notes db) ns')\<rparr>)"

text \<open>The function returns \<^verbatim>\<open>void\<close> and has no \<^verbatim>\<open>RAISE\<close>: every call returns normally.
  When the root is not in \<^verbatim>\<open>notes\<close>, \<^verbatim>\<open>target_project_id\<close> is \<^verbatim>\<open>NULL\<close> and the last
  \<^verbatim>\<open>UPDATE\<close> matches no row.\<close>

definition delete_note_tree :: "database \<Rightarrow> nat \<Rightarrow> uuid \<Rightarrow> error + database" where
  "delete_note_tree db now root_note_id =
     (let target_project_id = map_option n_project_id (find (\<lambda>n. n_id n = root_note_id) (db_notes db));
          notes_to_delete = descendants (db_notes db) root_note_id;
          db1 = db\<lparr>db_note_sequences :=
                    sql_delete (\<lambda>r. note_id r \<in> set notes_to_delete) (db_note_sequences db)\<rparr>;
          db2 = delete_from_notes db1 notes_to_delete
      in Inr (db2\<lparr>db_settings := sql_update (\<lambda>s. Some (s_id s) = target_project_id)
                (\<lambda>s. s\<lparr>note_count := int (length (filter (\<lambda>n. Some (n_project_id n) = target_project_id)
                                                   (db_notes db2))),
                       last_modified_at := now\<rparr>) (db_settings db2)\<rparr>))"

subsection \<open>\<^verbatim>\<open>noteOperations.create\<close> (\<^verbatim>\<open>src/lib/database/notes.ts\<close>)\<close>

text \<open>
  The function sends three requests to the store and, on one path, a fourth; nothing
  ties them into a transaction, so the store after the call is part of the result.
  Whether the store refuses a request is not decided by the function: \<open>noteError\<close> and
  \<open>seqError\<close> are the \<^verbatim>\<open>error\<close> fields of the answers to the two inserts, and
  \<open>cleanupError\<close> that of the answer to the cleaning \<^verbatim>\<open>delete\<close>, which the function does
  not read. \<^verbatim>\<open>sequenceOperations.getNextSequence\<close> is imported from \<^verbatim>\<open>./sequences\<close>,
  which is not among the sources: what the awaited call gives is the parameter
  \<open>next_sequence\<close>, the value it resolves to (\<open>None\<close> for \<^verbatim>\<open>null\<close> or \<^verbatim>\<open>undefined\<close>) or the
  error it rejects with, which \<^verbatim>\<open>create\<close> does not catch. \<open>noteId\<close> is
  \<^verbatim>\<open>crypto.randomUUID()\<close>.
\<close>

datatype ts_error = FailedToCreateNote | FailedToCreateNoteSequence | Rejected

text \<open>\<^verbatim>\<open>sequence || 1\<close>\<close>

definition or_one :: "int option \<Rightarrow> int" where
  "or_one s = (case s of None \<Rightarrow> 1 | Some v \<Rightarrow> if v = 0 then 1 else v)"

definition create ::
  "database \<Rightarrow> bool \<Rightarrow> ts_error + int option \<Rightarrow> bool \<Rightarrow> bool \<Rightarrow> uuid \<Rightarrow> uuid \<Rightarrow> uuid option
   \<Rightarrow> (ts_error + uuid) \<times> database" where
  "create db noteError next_sequence seqError cleanupError noteId projectId parentId =
     (if noteError then (Inl FailedToCreateNote, db)
      else
        let db1 = db\<lparr>db_notes := db_notes db @
                     [\<lparr>n_id = noteId, n_project_id = projectId, n_parent_id = parentId\<rparr>]\<rparr>
        in case next_sequence of
             Inl e \<Rightarrow> (Inl e, db1)
           | Inr s \<Rightarrow>
               if seqError then
                 (Inl FailedToCreateNoteSequence,
                  if cleanupError then db1 else delete_from_notes db1 [noteId])
               else (Inr noteId,
                     db1\<lparr>db_note_sequences := db_note_sequences db1 @
                           [\<lparr>note_id = noteId, project_id = projectId, parent_id = parentId,
                             sequence = or_one s\<rparr>]\<rparr>))"

section \<open>What a call has written when it returns\<close>

text \<open>
  The statements of \<^verbatim>\<open>move_note\<close> and \<^verbatim>\<open>normalize_note_sequences\<close> with the store's checks
  set aside: the rows as the statement's \<^verbatim>\<open>SET\<close> and \<^verbatim>\<open>WHERE\<close> describe them. The lemmas
  \<open>update_rows_writes\<close> to \<open>move_note_writes\<close> below show that a call which returns has
  written exactly these rows, whatever the order the store visited them in; a call
  that does not return has written nothing.
\<close>

text \<open>The store's choices that the lemmas take for granted: an \<^verbatim>\<open>UPDATE\<close> visits every
  row of the table once, and \<^verbatim>\<open>ORDER BY sequence\<close> returns the rows it is given, in
  ascending sequence.\<close>

definition admissible :: "store_order \<Rightarrow> bool" where
  "admissible st \<longleftrightarrow>
     (\<forall>t. distinct (visit st t) \<and> set (visit st t) = {0..<length t})
     \<and> (\<forall>g. mset (order_by_sequence st g) = mset g \<and> sorted (map sequence (order_by_sequence st g)))"

text \<open>The rows of a group as \<^verbatim>\<open>ORDER BY sequence\<close> returns them (the store's order; any
  ascending order where the store's is none).\<close>

definition ordered_rows :: "store_order \<Rightarrow> note_sequence list \<Rightarrow> note_sequence list" where
  "ordered_rows st g =
     (if mset (order_by_sequence st g) = mset g \<and> sorted (map sequence (order_by_sequence st g))
      then order_by_sequence st g else sort_key sequence g)"

definition clamped :: "note_sequence list \<Rightarrow> uuid \<Rightarrow> uuid option \<Rightarrow> int \<Rightarrow> int" where
  "clamped t v_project_id p_new_parent_id p_new_position =
     max 1 (min p_new_position (max_sequence t v_project_id p_new_parent_id + 1))"

fun renumber_effect :: "note_sequence list \<Rightarrow> uuid list \<Rightarrow> int \<Rightarrow> note_sequence list" where
  "renumber_effect t [] current_seq = t"
| "renumber_effect t (i # ids) current_seq =
     renumber_effect (sql_update (\<lambda>r. note_id r = i) (\<lambda>r. r\<lparr>sequence := current_seq\<rparr>) t) ids
       (current_seq + 1)"

definition normalize_effect ::
  "store_order \<Rightarrow> note_sequence list \<Rightarrow> uuid \<Rightarrow> uuid option \<Rightarrow> note_sequence list" where
  "normalize_effect st t target_project_id target_parent_id =
     renumber_effect t
       (map note_id (ordered_rows st (group_rows t target_project_id target_parent_id))) 1"

definition park_effect :: "note_sequence list \<Rightarrow> uuid \<Rightarrow> uuid option \<Rightarrow> note_sequence list" where
  "park_effect t p_note_id p_new_parent_id =
     sql_update (\<lambda>r. note_id r = p_note_id)
       (\<lambda>r. r\<lparr>parent_id := p_new_parent_id, sequence := v_temp_sequence\<rparr>) t"

definition shift_effect ::
  "note_sequence list \<Rightarrow> uuid \<Rightarrow> uuid option \<Rightarrow> int \<Rightarrow> uuid option \<Rightarrow> int \<Rightarrow> note_sequence list" where
  "shift_effect t v_project_id v_old_parent_id v_old_sequence p_new_parent_id p_new_position =
     (if v_old_parent_id = p_new_parent_id then
        (if v_old_sequence < p_new_position then
           sql_update (\<lambda>r. in_group v_project_id p_new_parent_id r
                            \<and> sequence r > v_old_sequence \<and> sequence r \<le> p_new_position)
             (\<lambda>r. r\<lparr>sequence := sequence r - 1\<rparr>) t
         else
           sql_update (\<lambda>r. in_group v_project_id p_new_parent_id r
                            \<and> sequence r \<ge> p_new_position \<and> sequence r < v_old_sequence)
             (\<lambda>r. r\<lparr>sequence := sequence r + 1\<rparr>) t)
      else
        sql_update (\<lambda>r. in_group v_project_id p_new_parent_id r \<and> sequence r \<ge> p_new_position)
          (\<lambda>r. r\<lparr>sequence := sequence r + 1\<rparr>)
          (sql_update (\<lambda>r. in_group v_project_id v_old_parent_id r \<and> sequence r > v_old_sequence)
             (\<lambda>r. r\<lparr>sequence := sequence r - 1\<rparr>) t))"

definition place_effect :: "note_sequence list \<Rightarrow> uuid \<Rightarrow> int \<Rightarrow> note_sequence list" where
  "place_effect t p_note_id p_new_position =
     sql_update (\<lambda>r. note_id r = p_note_id) (\<lambda>r. r\<lparr>sequence := p_new_position\<rparr>) t"

text \<open>STEP 1, 3 and 4 on \<^verbatim>\<open>note_sequences\<close>, for a note whose row was read as
  \<open>(v_project_id, v_old_parent_id, v_old_sequence)\<close>.\<close>

definition park_shift_place_effect ::
  "note_sequence list \<Rightarrow> uuid \<Rightarrow> uuid \<Rightarrow> uuid option \<Rightarrow> int \<Rightarrow> uuid option \<Rightarrow> int \<Rightarrow> note_sequence list" where
  "park_shift_place_effect t p_note_id v_project_id v_old_parent_id v_old_sequence p_new_parent_id p_new_position =
     place_effect
       (shift_effect (park_effect t p_note_id p_new_parent_id)
          v_project_id v_old_parent_id v_old_sequence p_new_parent_id p_new_position)
       p_note_id p_new_position"

definition normalize_affected_effect ::
  "store_order \<Rightarrow> note_sequence list \<Rightarrow> uuid \<Rightarrow> uuid option \<Rightarrow> uuid option \<Rightarrow> note_sequence list" where
  "normalize_affected_effect st t v_project_id v_old_parent_id p_new_parent_id =
     (let t' = normalize_effect st t v_project_id v_old_parent_id
      in if v_old_parent_id \<noteq> p_new_parent_id
         then normalize_effect st t' v_project_id p_new_parent_id else t')"

section \<open>Properties of the store\<close>

text \<open>The group of \<open>(p, par)\<close> is dense when its sequences are exactly \<open>1, ..., N\<close>,
  \<open>N\<close> the number of its entries: no duplicate and no gap.\<close>

definition group_size :: "note_sequence list \<Rightarrow> uuid \<Rightarrow> uuid option \<Rightarrow> int" where
  "group_size t p par = int (length (group_rows t p par))"

definition dense :: "note_sequence list \<Rightarrow> uuid \<Rightarrow> uuid option \<Rightarrow> bool" where
  "dense t p par \<longleftrightarrow> sort (map sequence (group_rows t p par)) = [1..group_size t p par]"

definition all_dense :: "note_sequence list \<Rightarrow> bool" where
  "all_dense t \<longleftrightarrow> list_all (\<lambda>r. dense t (project_id r) (parent_id r)) t"

section \<open>The shifts in the spec's words\<close>

text \<open>
  Following the spec's words, for comparison with what \<^verbatim>\<open>move_note\<close> writes: what a move of
  note \<open>n\<close> within its parent does to an order entry. Entries of the group with a
  sequence in \<open>(old_sequence, requested_position]\<close> go down by one, those with a sequence
  in \<open>[requested_position, old_sequence)\<close> go up by one, the note gets
  \<open>requested_position\<close>.
\<close>

definition spec_shift_same :: "uuid \<Rightarrow> uuid \<Rightarrow> uuid option \<Rightarrow> int \<Rightarrow> int \<Rightarrow> note_sequence \<Rightarrow> note_sequence" where
  "spec_shift_same n p par old_sequence requested_position r =
     (if note_id r = n then r\<lparr>sequence := requested_position\<rparr>
      else if in_group p par r \<and> old_sequence < sequence r \<and> sequence r \<le> requested_position
           then r\<lparr>sequence := sequence r - 1\<rparr>
      else if in_group p par r \<and> requested_position \<le> sequence r \<and> sequence r < old_sequence
           then r\<lparr>sequence := sequence r + 1\<rparr>
      else r)"

text \<open>
  Following the spec's words: what a move of note \<open>n\<close> to another parent does to an
  order entry. Entries of the old group above \<open>old_sequence\<close> go down by one, entries of
  the new group from \<open>requested_position\<close> on go up by one, the note goes to the new
  group at \<open>requested_position\<close>.
\<close>

definition spec_shift_other ::
  "uuid \<Rightarrow> uuid \<Rightarrow> uuid option \<Rightarrow> int \<Rightarrow> uuid option \<Rightarrow> int \<Rightarrow> note_sequence \<Rightarrow> note_sequence" where
  "spec_shift_other n p old_parent old_sequence new_parent requested_position r =
     (if note_id r = n then r\<lparr>parent_id := new_parent, sequence := requested_position\<rparr>
      else if in_group p old_parent r \<and> old_sequence < sequence r
           then r\<lparr>sequence := sequence r - 1\<rparr>
      else if in_group p new_parent r \<and> requested_position \<le> sequence r
           then r\<lparr>sequence := sequence r + 1\<rparr>
      else r)"

section \<open>Example stores\<close>

text \<open>Entries and notes of project 1; \<open>store_of\<close> is the store whose notes mirror the
  given order entries.\<close>

definition order_entry :: "uuid \<Rightarrow> uuid option \<Rightarrow> int \<Rightarrow> note_sequence" where
  "order_entry i par s = \<lparr>note_id = i, project_id = 1, parent_id = par, sequence = s\<rparr>"

definition note_of :: "note_sequence \<Rightarrow> note_row" where
  "note_of r = \<lparr>n_id = note_id r, n_project_id = project_id r, n_parent_id = parent_id r\<rparr>"

definition store_of :: "note_sequence list \<Rightarrow> database" where
  "store_of t = \<lparr>db_notes = map note_of t, db_note_sequences = t,
                 db_settings = [\<lparr>s_id = 1, note_count = int (length t), last_modified_at = 0\<rparr>]\<rparr>"

text \<open>Root group \<open>[A:1, B:2, C:3]\<close>, with \<open>A = 1\<close>, \<open>B = 2\<close>, \<open>C = 3\<close>.\<close>

definition roots_abc :: "note_sequence list" where
  "roots_abc = [order_entry 1 None 1, order_entry 2 None 2, order_entry 3 None 3]"

text \<open>Roots \<open>X = 10\<close>, \<open>Y = 11\<close>; children of \<open>X\<close>: \<open>[P:1, Q:2]\<close>; of \<open>Y\<close>: \<open>[R:1]\<close>
  (\<open>P = 1\<close>, \<open>Q = 2\<close>, \<open>R = 3\<close>).\<close>

definition two_parents :: "note_sequence list" where
  "two_parents = [order_entry 10 None 1, order_entry 11 None 2,
                  order_entry 1 (Some 10) 1, order_entry 2 (Some 10) 2, order_entry 3 (Some 11) 1]"

text \<open>Root group \<open>[A:1, C:3]\<close>: what deleting \<open>B\<close> from \<open>[A:1, B:2, C:3]\<close> leaves.\<close>

definition roots_gap :: "note_sequence list" where
  "roots_gap = [order_entry 1 None 1, order_entry 3 None 3]"

text \<open>Root group \<open>[A:1, B:2]\<close>.\<close>

definition roots_ab :: "note_sequence list" where
  "roots_ab = [order_entry 1 None 1, order_entry 2 None 2]"

text \<open>Root \<open>X = 10\<close> with the one child \<open>P = 1\<close>.\<close>

definition parent_child :: "note_sequence list" where
  "parent_child = [order_entry 10 None 1, order_entry 1 (Some 10) 1]"

text \<open>Root group \<open>[A:2, B:2, C:1]\<close>.\<close>

definition roots_tied :: "note_sequence list" where
  "roots_tied = [order_entry 1 None 2, order_entry 2 None 2, order_entry 3 None 1]"

text \<open>The same group, with the row of \<open>B\<close> stored before the row of \<open>A\<close>.\<close>

definition roots_tied_b_first :: "note_sequence list" where
  "roots_tied_b_first = [order_entry 2 None 2, order_entry 1 None 2, order_entry 3 None 1]"

text \<open>A chain of \<open>n\<close> notes: note 1 is a root, note \<open>i + 1\<close> the only child of note \<open>i\<close>.\<close>

definition chain :: "nat \<Rightarrow> note_sequence list" where
  "chain n = map (\<lambda>i. order_entry i (if i = 1 then None else Some (i - 1)) 1) [1..<Suc n]"

text \<open>The entries and the store that the examples below arrive at.\<close>

definition roots_bc :: "note_sequence list" where
  "roots_bc = [order_entry 2 None 2, order_entry 3 None 3]"

definition stamped :: "note_sequence list \<Rightarrow> int \<Rightarrow> nat \<Rightarrow> database" where
  "stamped t n now = \<lparr>db_notes = map note_of t, db_note_sequences = t,
                      db_settings = [\<lparr>s_id = 1, note_count = n, last_modified_at = now\<rparr>]\<rparr>"

text \<open>\<open>two_parents\<close> after the subtree of \<open>X\<close> is deleted at time 7, and \<open>parent_child\<close>
  after \<open>X\<close> is moved under its child \<open>P\<close> at time 7.\<close>

definition two_parents_without_x :: database where
  "two_parents_without_x = stamped [order_entry 11 None 2, order_entry 3 (Some 11) 1] 2 7"

definition cycle_store :: database where
  "cycle_store = stamped [order_entry 10 (Some 1) 1, order_entry 1 (Some 10) 1] 2 7"

text \<open>\<open>roots_abc\<close> after \<open>B\<close> is moved to position 1, and \<open>two_parents\<close> after \<open>Q\<close> is moved
  under \<open>Y\<close> at position 1.\<close>

definition moved_b :: "note_sequence list" where
  "moved_b = [order_entry 1 None 2, order_entry 2 None 1, order_entry 3 None 3]"

definition moved_q :: "note_sequence list" where
  "moved_q = [order_entry 10 None 1, order_entry 11 None 2,
              order_entry 1 (Some 10) 1, order_entry 2 (Some 11) 1, order_entry 3 (Some 11) 2]"

text \<open>\<open>X = 10\<close> with the children \<open>[P:1, Q:2, R:3]\<close>.\<close>

definition three_children :: "note_sequence list" where
  "three_children = [order_entry 10 None 1, order_entry 1 (Some 10) 1,
                     order_entry 2 (Some 10) 2, order_entry 3 (Some 10) 3]"

text \<open>Roots \<open>X = 10\<close>, \<open>Y = 11\<close>; children of \<open>X\<close>: \<open>[P:1, Q:3]\<close> (what deleting the
  sibling at 2 leaves); of \<open>Y\<close>: \<open>[R:1]\<close>. And the entries after \<open>P\<close> is moved under \<open>Y\<close>
  at position 1.\<close>

definition gap_parents :: "note_sequence list" where
  "gap_parents = [order_entry 10 None 1, order_entry 11 None 2,
                  order_entry 1 (Some 10) 1, order_entry 2 (Some 10) 3, order_entry 3 (Some 11) 1]"

definition moved_p :: "note_sequence list" where
  "moved_p = [order_entry 10 None 1, order_entry 11 None 2,
              order_entry 1 (Some 11) 1, order_entry 2 (Some 10) 1, order_entry 3 (Some 11) 2]"

text \<open>\<open>roots_gap\<close> after \<open>A\<close> is moved to position 3.\<close>

definition moved_a :: "note_sequence list" where
  "moved_a = [order_entry 1 None 2, order_entry 3 None 1]"

text \<open>Root group \<open>[A:1, B:5, C:6]\<close>.\<close>

definition roots_wide :: "note_sequence list" where
  "roots_wide = [order_entry 1 None 1, order_entry 2 None 5, order_entry 3 None 6]"

text \<open>A store in which the order entry of note 2 names \<open>X = 10\<close> as parent while the row
  of note 2 in \<^verbatim>\<open>notes\<close> has no parent (the two tables are written by separate
  statements), and what deleting the subtree of \<open>X\<close> at time 7 leaves of it.\<close>

definition unmirrored :: database where
  "unmirrored = \<lparr>db_notes = [\<lparr>n_id = 10, n_project_id = 1, n_parent_id = None\<rparr>,
                              \<lparr>n_id = 2, n_project_id = 1, n_parent_id = None\<rparr>],
                  db_note_sequences = [order_entry 10 None 1, order_entry 2 (Some 10) 1],
                  db_settings = [\<lparr>s_id = 1, note_count = 2, last_modified_at = 0\<rparr>]\<rparr>"

definition unmirrored_without_x :: database where
  "unmirrored_without_x = \<lparr>db_notes = [\<lparr>n_id = 2, n_project_id = 1, n_parent_id = None\<rparr>],
                            db_note_sequences = [],
                            db_settings = [\<lparr>s_id = 1, note_count = 1, last_modified_at = 7\<rparr>]\<rparr>"

text \<open>Roots \<open>X = 10\<close>, \<open>Y = 11\<close>; children of \<open>X\<close>: \<open>[P:1, Q:2]\<close>; of \<open>Y\<close>: \<open>[R:1, S:2]\<close>
  (\<open>S = 4\<close>). And the entries after \<open>Q\<close> is moved under \<open>Y\<close> at position 1.\<close>

definition two_full_parents :: "note_sequence list" where
  "two_full_parents = [order_entry 10 None 1, order_entry 11 None 2,
                       order_entry 1 (Some 10) 1, order_entry 2 (Some 10) 2,
                       order_entry 3 (Some 11) 1, order_entry 4 (Some 11) 2]"

definition moved_q_full :: "note_sequence list" where
  "moved_q_full = [order_entry 10 None 1, order_entry 11 None 2,
                   order_entry 1 (Some 10) 1, order_entry 2 (Some 11) 1,
                   order_entry 3 (Some 11) 2, order_entry 4 (Some 11) 3]"

text \<open>\<open>X = 10\<close> with the children \<open>[P:0, Q:1]\<close>.\<close>

definition children_from_zero :: "note_sequence list" where
  "children_from_zero = [order_entry 10 None 1, order_entry 1 (Some 10) 0, order_entry 2 (Some 10) 1]"

text \<open>A store that visits the rows in the order of the list and sorts them stably.\<close>

definition list_order :: store_order where
  "list_order = \<lparr>visit = (\<lambda>t. [0..<length t]), order_by_sequence = sort_key sequence\<rparr>"

text \<open>A store that visits the rows from the last of the list to the first.\<close>

definition last_first :: store_order where
  "last_first = \<lparr>visit = (\<lambda>t. rev [0..<length t]), order_by_sequence = sort_key sequence\<rparr>"

text \<open>What a renumbering never rewrites in an entry.\<close>

abbreviation entry_key :: "note_sequence \<Rightarrow> uuid \<times> uuid \<times> uuid option" where
  "entry_key r \<equiv> (note_id r, project_id r, parent_id r)"

section \<open>Facts about the rows a statement writes\<close>

lemmas table_defs = sql_update_def sql_delete_def in_group_def group_rows_def coalesce_def
  max_sequence_def group_size_def

lemmas example_defs = order_entry_def note_of_def store_of_def stamped_def

lemma sql_update_cong:
  "(\<And>r. r \<in> set t \<Longrightarrow> c r = c' r) \<Longrightarrow> (\<And>r. r \<in> set t \<Longrightarrow> c r \<Longrightarrow> f r = f' r) \<Longrightarrow>
   sql_update c f t = sql_update c' f' t"
  by (auto simp: sql_update_def)

lemma sql_update_id: "(\<And>r. r \<in> set t \<Longrightarrow> c r \<Longrightarrow> f r = r) \<Longrightarrow> sql_update c f t = t"
  by (induction t) (auto simp: sql_update_def)

lemma in_group_seq_upd [simp]: "in_group p par (r\<lparr>sequence := s\<rparr>) = in_group p par r"
  by (simp add: in_group_def)

lemma in_group_unique: "in_group p par r \<Longrightarrow> in_group p' par' r \<Longrightarrow> p' = p \<and> par' = par"
  by (auto simp: in_group_def)

lemma in_group_rows: "r \<in> set (group_rows t p par) \<longleftrightarrow> r \<in> set t \<and> in_group p par r"
  by (auto simp: group_rows_def)

lemma note_id_sql_update_seq:
  "map note_id (sql_update c (\<lambda>r. r\<lparr>sequence := g r\<rparr>) t) = map note_id t"
  by (simp add: sql_update_def)

lemma group_rows_sql_update_seq:
  "group_rows (sql_update c (\<lambda>r. r\<lparr>sequence := g r\<rparr>) t) p par =
   sql_update c (\<lambda>r. r\<lparr>sequence := g r\<rparr>) (group_rows t p par)"
  by (induction t) (auto simp: group_rows_def sql_update_def)

lemma group_rows_sql_update_other:
  "(\<And>r. r \<in> set t \<Longrightarrow> c r \<Longrightarrow> \<not> in_group p par r \<and> \<not> in_group p par (f r)) \<Longrightarrow>
   group_rows (sql_update c f t) p par = group_rows t p par"
  by (induction t) (auto simp: group_rows_def sql_update_def)

lemma distinct_ids_inj:
  "distinct (map note_id t) \<Longrightarrow> r \<in> set t \<Longrightarrow> r' \<in> set t \<Longrightarrow> note_id r = note_id r' \<Longrightarrow> r = r'"
  by (meson distinct_map inj_onD)

lemma upt_ranks: "map (\<lambda>k. 1 + int k) [0..<n] = [1..int n]"
proof (induction n)
  case 0
  show ?case by simp
next
  case (Suc n)
  have "[1..int (Suc n)] = [1..int n] @ [int n + 1]"
    using upto_rec2 [of 1 "int n + 1"] by (simp add: add.commute)
  with Suc show ?case by (simp add: add.commute)
qed

lemma ordered_rows_mset [simp]: "mset (ordered_rows st g) = mset g"
  by (simp add: ordered_rows_def)

lemma ordered_rows_set [simp]: "set (ordered_rows st g) = set g"
  by (rule mset_eq_setD) simp

lemma ordered_rows_length [simp]: "length (ordered_rows st g) = length g"
  by (rule mset_eq_length) simp

lemma ordered_rows_sorted: "sorted (map sequence (ordered_rows st g))"
  by (simp add: ordered_rows_def)

lemma map_ordered_rows: "map sequence (ordered_rows st g) = sort (map sequence g)"
  by (rule properties_for_sort [symmetric]) (simp_all add: ordered_rows_sorted)

lemma ordered_rows_admissible: "admissible st \<Longrightarrow> ordered_rows st g = order_by_sequence st g"
  by (simp add: admissible_def ordered_rows_def)

section \<open>The normalizer\<close>

text \<open>The loop writes, for each identifier of the list, its place in the list.\<close>

lemma renumber_eq:
  "distinct ids \<Longrightarrow>
   \<exists>rk. renumber_effect t ids c = sql_update (\<lambda>r. note_id r \<in> set ids) (\<lambda>r. r\<lparr>sequence := rk (note_id r)\<rparr>) t
       \<and> map rk ids = map (\<lambda>k. c + int k) [0..<length ids]"
proof (induction ids arbitrary: t c)
  case Nil
  show ?case by (simp add: sql_update_def)
next
  case (Cons i ids)
  let ?t1 = "sql_update (\<lambda>r. note_id r = i) (\<lambda>r. r\<lparr>sequence := c\<rparr>) t"
  from Cons.prems have d: "distinct ids" and ni: "i \<notin> set ids" by auto
  from Cons.IH [OF d, of ?t1 "c + 1"] obtain rk where
    r: "renumber_effect ?t1 ids (c + 1) =
        sql_update (\<lambda>r. note_id r \<in> set ids) (\<lambda>r. r\<lparr>sequence := rk (note_id r)\<rparr>) ?t1"
    and m: "map rk ids = map (\<lambda>k. c + 1 + int k) [0..<length ids]" by blast
  let ?rk = "rk(i := c)"
  have a: "renumber_effect t (i # ids) c =
           sql_update (\<lambda>r. note_id r \<in> set (i # ids)) (\<lambda>r. r\<lparr>sequence := ?rk (note_id r)\<rparr>) t"
    using ni by (simp add: r) (auto simp: sql_update_def)
  have "map ?rk ids = map rk ids" using ni by auto
  then have b: "map ?rk (i # ids) = map (\<lambda>k. c + int k) [0..<length (i # ids)]"
    using m by (simp add: upt_conv_Cons del: upt_Suc) (simp add: map_Suc_upt [symmetric] del: upt_Suc)
  from a b show ?case by blast
qed

lemma sorted_group_ids_distinct:
  assumes "distinct (map note_id t)"
  shows "distinct (map note_id (ordered_rows st (group_rows t p par)))"
proof -
  have "distinct (map note_id (group_rows t p par))"
    using assms by (simp add: group_rows_def distinct_map_filter)
  moreover have "mset (map note_id (ordered_rows st (group_rows t p par)))
                 = mset (map note_id (group_rows t p par))"
    by simp
  ultimately show ?thesis by (metis mset_eq_imp_distinct_iff)
qed

text \<open>With unique note identifiers the normalizer rewrites the sequences of its group,
  and only those: the entry that is \<open>k\<close>-th in ascending sequence gets \<open>k\<close>.\<close>

lemma normalize_eq:
  assumes d: "distinct (map note_id t)"
  shows "\<exists>rk. normalize_effect st t p par =
              sql_update (in_group p par) (\<lambda>r. r\<lparr>sequence := rk (note_id r)\<rparr>) t
            \<and> map rk (map note_id (ordered_rows st (group_rows t p par))) = [1..group_size t p par]"
proof -
  let ?ids = "map note_id (ordered_rows st (group_rows t p par))"
  from renumber_eq [OF sorted_group_ids_distinct [OF d, of st p par], of t 1] obtain rk where
    r: "renumber_effect t ?ids 1 = sql_update (\<lambda>r. note_id r \<in> set ?ids) (\<lambda>r. r\<lparr>sequence := rk (note_id r)\<rparr>) t"
    and m: "map rk ?ids = map (\<lambda>k. 1 + int k) [0..<length ?ids]" by blast
  have mem: "note_id r \<in> set ?ids \<longleftrightarrow> in_group p par r" if "r \<in> set t" for r
  proof
    assume "note_id r \<in> set ?ids"
    then obtain r' where r': "r' \<in> set t" "in_group p par r'" "note_id r = note_id r'"
      by (auto simp: group_rows_def)
    with distinct_ids_inj [OF d that] show "in_group p par r" by auto
  next
    assume "in_group p par r"
    with that show "note_id r \<in> set ?ids" by (auto simp: group_rows_def)
  qed
  have "normalize_effect st t p par =
        sql_update (in_group p par) (\<lambda>r. r\<lparr>sequence := rk (note_id r)\<rparr>) t"
    unfolding normalize_effect_def r
  proof (rule sql_update_cong)
    fix r assume "r \<in> set t"
    then show "(note_id r \<in> set ?ids) = in_group p par r" by (rule mem)
  qed simp
  moreover have "map rk ?ids = [1..group_size t p par]"
    using m by (simp add: upt_ranks group_size_def)
  ultimately show ?thesis by blast
qed

lemma normalize_note_ids:
  "distinct (map note_id t) \<Longrightarrow> map note_id (normalize_effect st t p par) = map note_id t"
  using normalize_eq [of t st p par] by (auto simp: note_id_sql_update_seq)

lemma normalize_group_rows_other:
  assumes "distinct (map note_id t)" "(p', par') \<noteq> (p, par)"
  shows "group_rows (normalize_effect st t p par) p' par' = group_rows t p' par'"
proof -
  from normalize_eq [OF assms(1), of st p par] obtain rk where
    e: "normalize_effect st t p par =
        sql_update (in_group p par) (\<lambda>r. r\<lparr>sequence := rk (note_id r)\<rparr>) t"
    by blast
  show ?thesis unfolding e
    by (rule group_rows_sql_update_other) (use assms(2) in \<open>auto dest: in_group_unique\<close>)
qed

lemma normalize_group_size:
  assumes "distinct (map note_id t)"
  shows "group_size (normalize_effect st t p par) p' par' = group_size t p' par'"
proof -
  from normalize_eq [OF assms, of st p par] obtain rk where
    e: "normalize_effect st t p par =
        sql_update (in_group p par) (\<lambda>r. r\<lparr>sequence := rk (note_id r)\<rparr>) t"
    by blast
  show ?thesis unfolding e group_size_def group_rows_sql_update_seq by (simp add: sql_update_def)
qed

lemma normalize_group_sequences:
  assumes "distinct (map note_id t)"
  shows "\<exists>rk. group_rows (normalize_effect st t p par) p par
               = map (\<lambda>r. r\<lparr>sequence := rk (note_id r)\<rparr>) (group_rows t p par)
            \<and> map rk (map note_id (ordered_rows st (group_rows t p par))) = [1..group_size t p par]"
proof -
  from normalize_eq [OF assms, of st p par] obtain rk where
    e: "normalize_effect st t p par =
        sql_update (in_group p par) (\<lambda>r. r\<lparr>sequence := rk (note_id r)\<rparr>) t"
    and m: "map rk (map note_id (ordered_rows st (group_rows t p par))) = [1..group_size t p par]"
    by blast
  have "group_rows (normalize_effect st t p par) p par
        = map (\<lambda>r. r\<lparr>sequence := rk (note_id r)\<rparr>) (group_rows t p par)"
    unfolding e group_rows_sql_update_seq by (auto simp: sql_update_def in_group_rows)
  with m show ?thesis by blast
qed

lemma dense_normalize:
  assumes "distinct (map note_id t)"
  shows "dense (normalize_effect st t p par) p par"
proof -
  let ?g = "group_rows t p par"
  from normalize_group_sequences [OF assms, of st p par] obtain rk where
    g: "group_rows (normalize_effect st t p par) p par
        = map (\<lambda>r. r\<lparr>sequence := rk (note_id r)\<rparr>) ?g"
    and m: "map rk (map note_id (ordered_rows st ?g)) = [1..group_size t p par]"
    by blast
  have "mset (map (\<lambda>r. rk (note_id r)) ?g) = mset (map (\<lambda>r. rk (note_id r)) (ordered_rows st ?g))"
    by simp
  also have "\<dots> = mset [1..group_size t p par]"
    using m by (simp add: comp_def)
  finally have "sort (map (\<lambda>r. rk (note_id r)) ?g) = [1..group_size t p par]"
    by (intro properties_for_sort) simp_all
  then show ?thesis
    unfolding dense_def normalize_group_size [OF assms] g by (simp add: comp_def)
qed

lemma normalize_dense_id:
  assumes d: "distinct (map note_id t)" and dn: "dense t p par"
  shows "normalize_effect st t p par = t"
proof -
  let ?xs = "ordered_rows st (group_rows t p par)"
  from normalize_eq [OF d, of st p par] obtain rk where
    e: "normalize_effect st t p par =
        sql_update (in_group p par) (\<lambda>r. r\<lparr>sequence := rk (note_id r)\<rparr>) t"
    and m: "map rk (map note_id ?xs) = [1..group_size t p par]"
    by blast
  have s: "map sequence ?xs = [1..group_size t p par]"
    using dn by (simp add: dense_def map_ordered_rows)
  have "rk (note_id r) = sequence r" if "r \<in> set t" "in_group p par r" for r
  proof -
    from that have "r \<in> set ?xs" by (simp add: in_group_rows)
    then obtain i where i: "i < length ?xs" "?xs ! i = r" unfolding in_set_conv_nth by blast
    have "rk (note_id r) = map rk (map note_id ?xs) ! i" using i by simp
    also have "\<dots> = map sequence ?xs ! i" by (simp only: m s)
    also have "\<dots> = sequence r" using i by simp
    finally show ?thesis .
  qed
  then show ?thesis unfolding e by (intro sql_update_id) simp
qed

lemma normalize_monotone:
  assumes d: "distinct (map note_id t)"
  shows "\<exists>rk. normalize_effect st t p par =
              sql_update (in_group p par) (\<lambda>r. r\<lparr>sequence := rk (note_id r)\<rparr>) t
            \<and> (\<forall>a\<in>set (group_rows t p par). \<forall>b\<in>set (group_rows t p par).
                 sequence a < sequence b \<longrightarrow> rk (note_id a) < rk (note_id b))"
proof -
  let ?xs = "ordered_rows st (group_rows t p par)"
  from normalize_eq [OF d, of st p par] obtain rk where
    e: "normalize_effect st t p par =
        sql_update (in_group p par) (\<lambda>r. r\<lparr>sequence := rk (note_id r)\<rparr>) t"
    and m: "map rk (map note_id ?xs) = [1..group_size t p par]"
    by blast
  have rk: "rk (note_id (?xs ! i)) = 1 + int i" if "i < length ?xs" for i
  proof -
    have "rk (note_id (?xs ! i)) = map rk (map note_id ?xs) ! i" using that by simp
    also have "\<dots> = [1..group_size t p par] ! i" by (simp only: m)
    also have "\<dots> = 1 + int i" using that by (simp add: group_size_def nth_upto)
    finally show ?thesis .
  qed
  have "rk (note_id a) < rk (note_id b)"
    if a: "a \<in> set (group_rows t p par)" and b: "b \<in> set (group_rows t p par)"
      and lt: "sequence a < sequence b" for a b
  proof -
    from a obtain i where i: "i < length ?xs" "?xs ! i = a"
      using in_set_conv_nth [of a ?xs] by auto
    from b obtain j where j: "j < length ?xs" "?xs ! j = b"
      using in_set_conv_nth [of b ?xs] by auto
    have "i < j"
    proof (rule ccontr)
      assume "\<not> i < j"
      then have "j \<le> i" by simp
      with sorted_nth_mono [OF ordered_rows_sorted [of st "group_rows t p par"], of j i] i j
      have "sequence b \<le> sequence a" by simp
      with lt show False by simp
    qed
    with rk [OF i(1)] rk [OF j(1)] i j show ?thesis by simp
  qed
  with e show ?thesis by blast
qed

section \<open>The cascade of a deletion\<close>

lemma removed_ids_self: "removed_ids ns ns = []"
  by (simp add: removed_ids_def)

lemma cascade_notes_none:
  "(\<And>n. n \<in> set ns \<Longrightarrow> \<not> references (n_parent_id n) removed) \<Longrightarrow> cascade_notes ns removed = ns"
  by (subst cascade_notes.simps) (simp add: filter_empty_conv)

text \<open>What the cascade leaves: notes of the table whose parent was removed neither
  before the cascade nor by it.\<close>

lemma cascade_notes_closed:
  "n \<in> set (cascade_notes ns removed) \<Longrightarrow>
     n \<in> set ns \<and> \<not> references (n_parent_id n) removed
     \<and> \<not> references (n_parent_id n) (removed_ids ns (cascade_notes ns removed))"
proof (induction ns removed rule: cascade_notes.induct)
  case (1 ns removed)
  let ?orphans = "filter (\<lambda>n. references (n_parent_id n) removed) ns"
  let ?rest = "filter (\<lambda>n. \<not> references (n_parent_id n) removed) ns"
  show ?case
  proof (cases "?orphans = []")
    case True
    then have "cascade_notes ns removed = ns" by (simp add: cascade_notes.simps)
    with 1 True show ?thesis
      by (auto simp: removed_ids_self filter_empty_conv references_def split: option.splits)
  next
    case False
    let ?ns' = "cascade_notes ?rest (map n_id ?orphans)"
    from False have e: "cascade_notes ns removed = ?ns'"
      by (subst cascade_notes.simps) simp
    from 1 e have "n \<in> set ?ns'" by simp
    from "1.IH" [OF False this] have
      a: "n \<in> set ?rest" and b: "\<not> references (n_parent_id n) (removed_ids ?rest ?ns')"
      and c: "\<not> references (n_parent_id n) (map n_id ?orphans)" by auto
    have "set (removed_ids ns ?ns') \<subseteq> set (map n_id ?orphans) \<union> set (removed_ids ?rest ?ns')"
      by (auto simp: removed_ids_def)
    with b c have "\<not> references (n_parent_id n) (removed_ids ns ?ns')"
      by (auto simp: references_def split: option.splits)
    with a show ?thesis unfolding e by simp
  qed
qed

lemma delete_notes_closed:
  assumes "n \<in> set (delete_notes ns ids)"
  shows "n \<in> set ns" and "n_id n \<notin> set ids"
    and "\<not> references (n_parent_id n) (removed_ids ns (delete_notes ns ids))"
proof -
  let ?rest = "sql_delete (\<lambda>n. n_id n \<in> set ids) ns"
  let ?dead = "map n_id (filter (\<lambda>n. n_id n \<in> set ids) ns)"
  from assms have m: "n \<in> set (cascade_notes ?rest ?dead)" by (simp add: delete_notes_def)
  from cascade_notes_closed [OF m] have
    a: "n \<in> set ?rest" and b: "\<not> references (n_parent_id n) ?dead"
    and c: "\<not> references (n_parent_id n) (removed_ids ?rest (cascade_notes ?rest ?dead))" by auto
  from a show "n \<in> set ns" "n_id n \<notin> set ids" by (auto simp: sql_delete_def)
  have "set (removed_ids ns (delete_notes ns ids))
        \<subseteq> set ?dead \<union> set (removed_ids ?rest (cascade_notes ?rest ?dead))"
    by (auto simp: removed_ids_def delete_notes_def sql_delete_def)
  with b c show "\<not> references (n_parent_id n) (removed_ids ns (delete_notes ns ids))"
    by (auto simp: references_def split: option.splits)
qed

lemma survivor_not_removed:
  assumes "distinct (map n_id ns)" "n \<in> set ns'" "set ns' \<subseteq> set ns"
  shows "n_id n \<notin> set (removed_ids ns ns')"
proof
  assume "n_id n \<in> set (removed_ids ns ns')"
  then obtain m where m: "m \<in> set ns" "m \<notin> set ns'" "n_id m = n_id n"
    by (auto simp: removed_ids_def)
  from assms have "n \<in> set ns" by auto
  with assms(1) m have "m = n" by (meson distinct_map inj_onD)
  with m assms(2) show False by simp
qed

lemma delete_from_notes_absent:
  "n \<in> set (db_notes (delete_from_notes db ids)) \<Longrightarrow> n_id n \<notin> set ids"
  by (auto simp: delete_from_notes_def Let_def dest: delete_notes_closed(2))

lemma delete_note_tree_result:
  "delete_note_tree db now root = Inr db' \<Longrightarrow>
     db_notes db' = delete_notes (db_notes db) (descendants (db_notes db) root)
   \<and> db_note_sequences db' =
       cascade_sequences
         (sql_delete (\<lambda>r. note_id r \<in> set (descendants (db_notes db) root)) (db_note_sequences db))
         (removed_ids (db_notes db) (db_notes db'))"
  by (auto simp: delete_note_tree_def delete_from_notes_def Let_def)

section \<open>The move keeps every key but the moved entry's parent\<close>

lemma sql_update_seq_keys:
  "map entry_key (sql_update c (\<lambda>r. r\<lparr>sequence := g r\<rparr>) t) = map entry_key t"
  by (simp add: sql_update_def)

lemma renumber_keys: "map entry_key (renumber_effect t ids c) = map entry_key t"
  by (induction ids arbitrary: t c) (simp_all add: sql_update_seq_keys)

lemma normalize_affected_keys:
  "map entry_key (normalize_affected_effect st t p old new) = map entry_key t"
  by (simp add: normalize_affected_effect_def normalize_effect_def Let_def renumber_keys)

lemma shift_sequences_keys:
  "map entry_key (shift_effect t p old s new pos) = map entry_key t"
  by (simp add: shift_effect_def sql_update_seq_keys)

lemma park_shift_place_keys:
  "map entry_key (park_shift_place_effect t n p old s new pos) = map entry_key (park_effect t n new)"
  by (simp add: park_shift_place_effect_def place_effect_def sql_update_seq_keys shift_sequences_keys)

lemma moved_entry_parent:
  assumes "r \<in> set (normalize_affected_effect st (park_shift_place_effect t n p old s new pos) p old new)"
    and "note_id r = n"
  shows "parent_id r = new"
proof -
  have "entry_key r \<in> set (map entry_key (normalize_affected_effect st (park_shift_place_effect t n p old s new pos) p old new))"
    using assms(1) by simp
  then have "entry_key r \<in> set (map entry_key (park_effect t n new))"
    by (simp only: normalize_affected_keys park_shift_place_keys)
  then obtain r' where "r' \<in> set (park_effect t n new)" "entry_key r' = entry_key r" by auto
  with assms(2) show ?thesis by (auto simp: park_effect_def sql_update_def split: if_splits)
qed


section \<open>The entry of the moved note\<close>

lemma find_entry:
  assumes "find (\<lambda>r. note_id r = n) t = Some e"
  shows "e \<in> set t" and "note_id e = n"
  using assms by (auto simp: find_Some_iff)

lemma the_entry:
  assumes "distinct (map note_id t)" "find (\<lambda>r. note_id r = n) t = Some e" "r \<in> set t" "note_id r = n"
  shows "r = e"
  using distinct_ids_inj [OF assms(1) assms(3) find_entry(1) [OF assms(2)]] find_entry(2) [OF assms(2)] assms(4)
  by simp

section \<open>Park, shift and place, row by row\<close>

text \<open>With unique note identifiers the three steps are one rewriting of each entry:
  the one the spec describes.\<close>

lemma park_shift_place_same:
  assumes d: "distinct (map note_id t)" and f: "find (\<lambda>r. note_id r = n) t = Some e"
  shows "park_shift_place_effect t n (project_id e) (parent_id e) (sequence e) (parent_id e) pos =
     map (\<lambda>r. if note_id r = n then r\<lparr>sequence := pos\<rparr>
               else if in_group (project_id e) (parent_id e) r \<and> sequence e < sequence r \<and> sequence r \<le> pos
                    then r\<lparr>sequence := sequence r - 1\<rparr>
               else if in_group (project_id e) (parent_id e) r \<and> pos \<le> sequence r \<and> sequence r < sequence e
                    then r\<lparr>sequence := sequence r + 1\<rparr>
               else r) t"
proof -
  have e: "r = e" if "r \<in> set t" "note_id r = n" for r
    using the_entry [OF d f that] .
  show ?thesis
  proof (cases "sequence e < pos")
    case True
    have sh: "shift_effect t' (project_id e) (parent_id e) (sequence e) (parent_id e) pos =
        sql_update (\<lambda>r. in_group (project_id e) (parent_id e) r
                         \<and> sequence r > sequence e \<and> sequence r \<le> pos)
          (\<lambda>r. r\<lparr>sequence := sequence r - 1\<rparr>) t'" for t'
      using True by (simp add: shift_effect_def)
    show ?thesis
      unfolding park_shift_place_effect_def sh park_effect_def place_effect_def sql_update_def map_map comp_def
      apply (rule map_cong [OF refl])
      subgoal for r
        apply (cases "note_id r = n")
        subgoal using e [of r] True by (simp add: in_group_def)
        subgoal using True by (simp add: in_group_def)
        done
      done
  next
    case False
    have sh: "shift_effect t' (project_id e) (parent_id e) (sequence e) (parent_id e) pos =
        sql_update (\<lambda>r. in_group (project_id e) (parent_id e) r
                         \<and> sequence r \<ge> pos \<and> sequence r < sequence e)
          (\<lambda>r. r\<lparr>sequence := sequence r + 1\<rparr>) t'" for t'
      using False by (simp add: shift_effect_def)
    show ?thesis
      unfolding park_shift_place_effect_def sh park_effect_def place_effect_def sql_update_def map_map comp_def
      apply (rule map_cong [OF refl])
      subgoal for r
        apply (cases "note_id r = n")
        subgoal using e [of r] False by (simp add: in_group_def)
        subgoal using False by (simp add: in_group_def)
        done
      done
  qed
qed

lemma park_shift_place_other:
  assumes d: "distinct (map note_id t)" and f: "find (\<lambda>r. note_id r = n) t = Some e"
    and ne: "parent_id e \<noteq> new"
  shows "park_shift_place_effect t n (project_id e) (parent_id e) (sequence e) new pos =
     map (\<lambda>r. if note_id r = n then r\<lparr>parent_id := new, sequence := pos\<rparr>
               else if in_group (project_id e) (parent_id e) r \<and> sequence e < sequence r
                    then r\<lparr>sequence := sequence r - 1\<rparr>
               else if in_group (project_id e) new r \<and> pos \<le> sequence r
                    then r\<lparr>sequence := sequence r + 1\<rparr>
               else r) t"
proof -
  have e: "r = e" if "r \<in> set t" "note_id r = n" for r
    using the_entry [OF d f that] .
  have sh: "shift_effect t' (project_id e) (parent_id e) (sequence e) new pos =
        sql_update (\<lambda>r. in_group (project_id e) new r \<and> sequence r \<ge> pos)
          (\<lambda>r. r\<lparr>sequence := sequence r + 1\<rparr>)
          (sql_update (\<lambda>r. in_group (project_id e) (parent_id e) r \<and> sequence r > sequence e)
             (\<lambda>r. r\<lparr>sequence := sequence r - 1\<rparr>) t')" for t'
    using ne by (simp add: shift_effect_def)
  show ?thesis
    unfolding park_shift_place_effect_def sh park_effect_def place_effect_def sql_update_def map_map comp_def
    apply (rule map_cong [OF refl])
    subgoal for r
      apply (cases "note_id r = n")
      subgoal using e [of r] ne by (simp add: in_group_def)
      subgoal using ne by (simp add: in_group_def)
      done
    done
qed

lemma park_shift_place_spec_same:
  assumes "distinct (map note_id t)" "find (\<lambda>r. note_id r = n) t = Some e"
  shows "park_shift_place_effect t n (project_id e) (parent_id e) (sequence e) (parent_id e) pos
         = map (spec_shift_same n (project_id e) (parent_id e) (sequence e) pos) t"
  unfolding park_shift_place_same [OF assms] spec_shift_same_def ..

lemma park_shift_place_spec_other:
  assumes "distinct (map note_id t)" "find (\<lambda>r. note_id r = n) t = Some e" "parent_id e \<noteq> new"
  shows "park_shift_place_effect t n (project_id e) (parent_id e) (sequence e) new pos
         = map (spec_shift_other n (project_id e) (parent_id e) (sequence e) new pos) t"
  unfolding park_shift_place_other [OF assms] spec_shift_other_def ..

lemma park_shift_place_note_ids:
  "map note_id (park_shift_place_effect t n p old s new pos) = map note_id t"
proof -
  have "map note_id (park_shift_place_effect t n p old s new pos)
        = map fst (map entry_key (park_shift_place_effect t n p old s new pos))" by simp
  also have "\<dots> = map fst (map entry_key (park_effect t n new))" by (simp only: park_shift_place_keys)
  also have "\<dots> = map note_id t" by (simp add: park_effect_def sql_update_def)
  finally show ?thesis .
qed

lemma park_shift_place_rows:
  assumes d: "distinct (map note_id t)" and f: "find (\<lambda>r. note_id r = n) t = Some e"
  shows "\<exists>F. park_shift_place_effect t n (project_id e) (parent_id e) (sequence e) new pos = map F t
     \<and> F e = e\<lparr>parent_id := new, sequence := pos\<rparr>
     \<and> (\<forall>r. note_id r \<noteq> n \<longrightarrow> entry_key (F r) = entry_key r
            \<and> (\<not> in_group (project_id e) (parent_id e) r \<and> \<not> in_group (project_id e) new r \<longrightarrow> F r = r))"
proof (cases "parent_id e = new")
  case True
  have n: "note_id e = n" using find_entry(2) [OF f] .
  show ?thesis
    unfolding True [symmetric] park_shift_place_same [OF d f]
    by (rule exI, rule conjI, rule refl) (simp add: n)
next
  case False
  have n: "note_id e = n" using find_entry(2) [OF f] .
  show ?thesis
    unfolding park_shift_place_other [OF d f False]
    by (rule exI, rule conjI, rule refl) (simp add: n)
qed

section \<open>Groups that a move does not touch\<close>

lemma group_rows_map_frame:
  "(\<And>r. r \<in> set t \<Longrightarrow> in_group p par (F r) = in_group p par r) \<Longrightarrow>
   (\<And>r. r \<in> set t \<Longrightarrow> in_group p par r \<Longrightarrow> F r = r) \<Longrightarrow>
   group_rows (map F t) p par = group_rows t p par"
  by (induction t) (auto simp: group_rows_def)

lemma group_rows_map:
  "group_rows (map F t) p par = map F (filter (\<lambda>r. in_group p par (F r)) t)"
  by (simp add: group_rows_def filter_map comp_def)

lemma park_shift_place_other_groups:
  assumes d: "distinct (map note_id t)" and f: "find (\<lambda>r. note_id r = n) t = Some e"
    and o: "(p', par') \<noteq> (project_id e, parent_id e)" and o': "(p', par') \<noteq> (project_id e, new)"
  shows "group_rows (park_shift_place_effect t n (project_id e) (parent_id e) (sequence e) new pos) p' par'
         = group_rows t p' par'"
proof -
  from park_shift_place_rows [OF d f, of new pos] obtain F where
    t4: "park_shift_place_effect t n (project_id e) (parent_id e) (sequence e) new pos = map F t"
    and Fe: "F e = e\<lparr>parent_id := new, sequence := pos\<rparr>"
    and Fk: "\<And>r. note_id r \<noteq> n \<Longrightarrow> entry_key (F r) = entry_key r"
    and Fi: "\<And>r. note_id r \<noteq> n \<Longrightarrow> \<not> in_group (project_id e) (parent_id e) r
                  \<Longrightarrow> \<not> in_group (project_id e) new r \<Longrightarrow> F r = r"
    by blast
  have ne: "\<not> in_group p' par' e" using o by (auto simp: in_group_def)
  have nFe: "\<not> in_group p' par' (F e)" using o' by (auto simp: Fe in_group_def)
  have g: "in_group p' par' (F r) = in_group p' par' r" if "r \<in> set t" for r
  proof (cases "note_id r = n")
    case True
    then have "r = e" using the_entry [OF d f that] by simp
    with ne nFe show ?thesis by simp
  next
    case False
    from Fk [OF False] show ?thesis by (simp add: in_group_def)
  qed
  have i: "F r = r" if "r \<in> set t" "in_group p' par' r" for r
  proof (cases "note_id r = n")
    case True
    then have "r = e" using the_entry [OF d f that(1)] by simp
    with ne that(2) show ?thesis by simp
  next
    case False
    have "\<not> in_group (project_id e) (parent_id e) r" "\<not> in_group (project_id e) new r"
      using that(2) o o' by (auto dest: in_group_unique)
    then show ?thesis by (rule Fi [OF False])
  qed
  show ?thesis unfolding t4 by (rule group_rows_map_frame) (simp_all add: g i)
qed

lemma normalize_affected_note_ids:
  "distinct (map note_id t) \<Longrightarrow> map note_id (normalize_affected_effect st t p old new) = map note_id t"
  by (simp add: normalize_affected_effect_def Let_def normalize_note_ids)

lemma dense_cong: "group_rows t' p par = group_rows t p par \<Longrightarrow> dense t' p par = dense t p par"
  by (simp add: dense_def group_size_def)

lemma normalize_affected_other_groups:
  assumes "distinct (map note_id t)" "(p', par') \<noteq> (p, old)" "(p', par') \<noteq> (p, new)"
  shows "group_rows (normalize_affected_effect st t p old new) p' par' = group_rows t p' par'"
  using assms
  by (simp add: normalize_affected_effect_def Let_def normalize_group_rows_other normalize_note_ids)

lemma normalize_affected_dense:
  assumes d: "distinct (map note_id t)"
  shows "dense (normalize_affected_effect st t p old new) p old" and "dense (normalize_affected_effect st t p old new) p new"
proof -
  let ?t' = "normalize_effect st t p old"
  have d': "distinct (map note_id ?t')" using d by (simp add: normalize_note_ids)
  show "dense (normalize_affected_effect st t p old new) p old"
  proof (cases "old = new")
    case True
    then show ?thesis by (simp add: normalize_affected_effect_def dense_normalize [OF d])
  next
    case False
    then have "group_rows (normalize_effect st ?t' p new) p old = group_rows ?t' p old"
      by (intro normalize_group_rows_other [OF d']) simp
    from dense_cong [OF this] False show ?thesis
      by (simp add: normalize_affected_effect_def dense_normalize [OF d])
  qed
  show "dense (normalize_affected_effect st t p old new) p new"
    by (cases "old = new") (simp_all add: normalize_affected_effect_def dense_normalize [OF d] dense_normalize [OF d'])
qed


lemma dense_empty: "group_rows t p par = [] \<Longrightarrow> dense t p par"
  by (simp add: dense_def group_size_def)

lemma all_dense_iff: "all_dense t \<longleftrightarrow> (\<forall>p par. dense t p par)"
proof
  assume a: "all_dense t"
  show "\<forall>p par. dense t p par"
  proof (intro allI)
    fix p par
    show "dense t p par"
    proof (cases "group_rows t p par")
      case Nil
      then show ?thesis by (rule dense_empty)
    next
      case (Cons r rs)
      then have "r \<in> set t" "in_group p par r"
        using in_group_rows [of r t p par] by simp_all
      with a show ?thesis by (auto simp: all_dense_def list_all_iff in_group_def)
    qed
  qed
next
  assume "\<forall>p par. dense t p par"
  then show "all_dense t" by (simp add: all_dense_def list_all_iff)
qed

lemma move_keeps_density:
  assumes d: "distinct (map note_id t)" and f: "find (\<lambda>r. note_id r = n) t = Some e"
    and a: "all_dense t"
  shows "all_dense (normalize_affected_effect st
           (park_shift_place_effect t n (project_id e) (parent_id e) (sequence e) new pos)
           (project_id e) (parent_id e) new)"
proof -
  let ?t4 = "park_shift_place_effect t n (project_id e) (parent_id e) (sequence e) new pos"
  let ?t5 = "normalize_affected_effect st ?t4 (project_id e) (parent_id e) new"
  have d4: "distinct (map note_id ?t4)" using d by (simp add: park_shift_place_note_ids)
  have "dense ?t5 p par" for p par
  proof (cases "(p, par) = (project_id e, parent_id e) \<or> (p, par) = (project_id e, new)")
    case True
    then show ?thesis using normalize_affected_dense [OF d4] by auto
  next
    case False
    then have "group_rows ?t5 p par = group_rows ?t4 p par"
      by (intro normalize_affected_other_groups [OF d4]) auto
    also have "\<dots> = group_rows t p par"
      using False by (intro park_shift_place_other_groups [OF d f]) auto
    finally have "dense ?t5 p par = dense t p par" by (rule dense_cong)
    with a show ?thesis by (simp add: all_dense_iff)
  qed
  then show ?thesis by (simp add: all_dense_iff)
qed

lemma normalize_keeps_density:
  assumes d: "distinct (map note_id t)" and a: "all_dense t"
  shows "all_dense (normalize_effect st t p par)"
proof -
  have "dense (normalize_effect st t p par) p' par'" for p' par'
  proof (cases "(p', par') = (p, par)")
    case True
    then show ?thesis using dense_normalize [OF d, of st p par] by simp
  next
    case False
    from dense_cong [OF normalize_group_rows_other [OF d False]] a show ?thesis
      by (simp add: all_dense_iff)
  qed
  then show ?thesis by (simp add: all_dense_iff)
qed

section \<open>Dense groups\<close>

lemma sql_max_Max: "sql_max xs = (if xs = [] then None else Some (Max (set xs)))"
  by (induction xs) (auto simp: max.commute)

lemma dense_set: "dense t p par \<Longrightarrow> sequence ` set (group_rows t p par) = {1..group_size t p par}"
proof -
  assume "dense t p par"
  then have "set (sort (map sequence (group_rows t p par))) = set [1..group_size t p par]"
    by (simp only: dense_def)
  then show ?thesis by simp
qed

lemma dense_mem:
  assumes "dense t p par" "r \<in> set t" "in_group p par r"
  shows "1 \<le> sequence r" and "sequence r \<le> group_size t p par"
proof -
  from assms(2,3) have "sequence r \<in> sequence ` set (group_rows t p par)"
    by (simp add: in_group_rows)
  with dense_set [OF assms(1)] show "1 \<le> sequence r" "sequence r \<le> group_size t p par" by auto
qed

lemma dense_max_sequence:
  assumes "dense t p par"
  shows "max_sequence t p par = group_size t p par"
proof (cases "group_rows t p par = []")
  case True
  then show ?thesis by (simp add: max_sequence_def group_size_def coalesce_def)
next
  case False
  then have "1 \<le> group_size t p par" by (cases "group_rows t p par") (simp_all add: group_size_def)
  then have "Max {1..group_size t p par} = group_size t p par" by (intro Max_eqI) auto
  with False dense_set [OF assms] show ?thesis
    by (simp add: max_sequence_def coalesce_def sql_max_Max)
qed

lemma clamp_position_dense:
  assumes "dense t p par"
  shows "clamped t p par pos = max 1 (min pos (group_size t p par + 1))"
  by (simp add: clamped_def dense_max_sequence [OF assms])

lemma dense_iff_set:
  "dense t p par \<longleftrightarrow> sequence ` set (group_rows t p par) = {1..group_size t p par}"
proof
  assume "dense t p par"
  then show "sequence ` set (group_rows t p par) = {1..group_size t p par}" by (rule dense_set)
next
  let ?xs = "map sequence (group_rows t p par)"
  assume s: "sequence ` set (group_rows t p par) = {1..group_size t p par}"
  then have "card (set ?xs) = length ?xs" by (simp add: group_size_def)
  then have "distinct ?xs" by (rule card_distinct)
  moreover have "set ?xs = set [1..group_size t p par]" using s by simp
  ultimately have "mset [1..group_size t p par] = mset ?xs"
    using set_eq_iff_mset_eq_distinct [of ?xs "[1..group_size t p par]"] by simp
  then have "sort ?xs = [1..group_size t p par]"
    by (intro properties_for_sort) simp_all
  then show "dense t p par" by (simp add: dense_def)
qed

lemma dense_inj:
  assumes "dense t p par" "r \<in> set t" "r' \<in> set t" "in_group p par r" "in_group p par r'"
    and "sequence r = sequence r'"
  shows "r = r'"
proof -
  have "distinct (sort (map sequence (group_rows t p par)))"
    using assms(1) by (simp add: dense_def)
  then have "distinct (map sequence (group_rows t p par))" by simp
  then have "inj_on sequence (set (group_rows t p par))" by (simp add: distinct_map)
  with assms show ?thesis by (auto simp: in_group_rows dest: inj_onD)
qed

lemma insert_keeps_density:
  assumes a: "all_dense t"
  shows "all_dense (t @ [\<lparr>note_id = i, project_id = p, parent_id = par,
                         sequence = max_sequence t p par + 1\<rparr>])"
proof -
  let ?r = "\<lparr>note_id = i, project_id = p, parent_id = par, sequence = max_sequence t p par + 1\<rparr>"
  have dn: "dense t p' par'" for p' par' using a by (simp add: all_dense_iff)
  have "dense (t @ [?r]) p' par'" for p' par'
  proof (cases "(p', par') = (p, par)")
    case False
    then have "group_rows (t @ [?r]) p' par' = group_rows t p' par'"
      by (auto simp: group_rows_def in_group_def)
    from dense_cong [OF this] dn show ?thesis by simp
  next
    case True
    let ?N = "group_size t p par"
    have g: "group_rows (t @ [?r]) p par = group_rows t p par @ [?r]"
      by (simp add: group_rows_def in_group_def)
    have s: "max_sequence t p par + 1 = ?N + 1"
      by (simp add: dense_max_sequence [OF dn])
    have "0 \<le> ?N" by (simp add: group_size_def)
    then have u: "[1..?N + 1] = [1..?N] @ [?N + 1]"
      using upto_rec2 [of 1 "?N + 1"] by simp
    have "mset (map sequence (group_rows t p par)) = mset [1..?N]"
      using dn [of p par] by (metis dense_def mset_sort)
    then have "mset (map sequence (group_rows t p par) @ [?N + 1]) = mset [1..?N + 1]"
      by (simp add: u)
    then have "sort (map sequence (group_rows t p par) @ [?N + 1]) = [1..?N + 1]"
      by (intro properties_for_sort) simp_all
    then have srt: "sort (map sequence (group_rows t p par @ [?r])) = [1..?N + 1]"
      by (simp add: s)
    have gs: "group_size (t @ [?r]) p par = ?N + 1"
      by (simp add: group_size_def g)
    from True have pp: "p' = p" and qq: "par' = par" by simp_all
    show ?thesis unfolding pp qq dense_def g gs by (rule srt)
  qed
  then show ?thesis by (simp add: all_dense_iff)
qed

lemma normalize_affected_dense_id:
  assumes d: "distinct (map note_id t)" and o: "dense t p old" and n: "dense t p new"
  shows "normalize_affected_effect st t p old new = t"
  by (simp add: normalize_affected_effect_def Let_def normalize_dense_id [OF d o] normalize_dense_id [OF d n])

section \<open>Where the moved note ends\<close>

lemma move_in_place:
  assumes d: "distinct (map note_id t)" and f: "find (\<lambda>r. note_id r = n) t = Some e"
    and dn: "dense t (project_id e) (parent_id e)"
  shows "clamped t (project_id e) (parent_id e) (sequence e) = sequence e"
    and "park_shift_place_effect t n (project_id e) (parent_id e) (sequence e) (parent_id e) (sequence e) = t"
    and "normalize_affected_effect st t (project_id e) (parent_id e) (parent_id e) = t"
proof -
  have m: "e \<in> set t" "in_group (project_id e) (parent_id e) e"
    using find_entry(1) [OF f] by (simp_all add: in_group_def)
  from dense_mem [OF dn m] show "clamped t (project_id e) (parent_id e) (sequence e) = sequence e"
    by (simp add: clamp_position_dense [OF dn])
  have "r\<lparr>sequence := sequence e\<rparr> = r" if "r \<in> set t" "note_id r = n" for r
    using the_entry [OF d f that] by simp
  then show "park_shift_place_effect t n (project_id e) (parent_id e) (sequence e) (parent_id e) (sequence e) = t"
    unfolding park_shift_place_same [OF d f] by (intro map_idI) simp
  show "normalize_affected_effect st t (project_id e) (parent_id e) (parent_id e) = t"
    by (simp add: normalize_affected_effect_def normalize_dense_id [OF d dn])
qed

lemma count_with_entry:
  assumes d: "distinct (map note_id t)" and m: "e \<in> set t"
  shows "length (filter (\<lambda>r. note_id r = note_id e \<or> Q r) t)
         = length (filter Q t) + (if Q e then 0 else 1)"
proof -
  from m obtain xs ys where t: "t = xs @ e # ys" by (auto dest: split_list)
  with d have "note_id e \<notin> note_id ` set xs" "note_id e \<notin> note_id ` set ys" by auto
  then have "\<forall>r\<in>set xs. note_id r \<noteq> note_id e" "\<forall>r\<in>set ys. note_id r \<noteq> note_id e"
    by (metis imageI)+
  then have "filter (\<lambda>r. note_id r = note_id e \<or> Q r) xs = filter Q xs"
    "filter (\<lambda>r. note_id r = note_id e \<or> Q r) ys = filter Q ys"
    by (auto intro: filter_cong)
  then show ?thesis by (simp add: t)
qed

lemma count_without_entry:
  assumes d: "distinct (map note_id t)" and m: "e \<in> set t" and q: "Q e"
  shows "length (filter (\<lambda>r. note_id r \<noteq> note_id e \<and> Q r) t) + 1 = length (filter Q t)"
proof -
  from m obtain xs ys where t: "t = xs @ e # ys" by (auto dest: split_list)
  with d have "note_id e \<notin> note_id ` set xs" "note_id e \<notin> note_id ` set ys" by auto
  then have "\<forall>r\<in>set xs. note_id r \<noteq> note_id e" "\<forall>r\<in>set ys. note_id r \<noteq> note_id e"
    by (metis imageI)+
  then have "filter (\<lambda>r. note_id r \<noteq> note_id e \<and> Q r) xs = filter Q xs"
    "filter (\<lambda>r. note_id r \<noteq> note_id e \<and> Q r) ys = filter Q ys"
    by (auto intro: filter_cong)
  then show ?thesis using q by (simp add: t)
qed

lemma park_shift_place_target_size:
  assumes d: "distinct (map note_id t)" and f: "find (\<lambda>r. note_id r = n) t = Some e"
  shows "group_size (park_shift_place_effect t n (project_id e) (parent_id e) (sequence e) new pos) (project_id e) new
         = group_size t (project_id e) new + (if new = parent_id e then 0 else 1)"
proof -
  from park_shift_place_rows [OF d f, of new pos] obtain F where
    t4: "park_shift_place_effect t n (project_id e) (parent_id e) (sequence e) new pos = map F t"
    and Fe: "F e = e\<lparr>parent_id := new, sequence := pos\<rparr>"
    and Fk: "\<And>r. note_id r \<noteq> n \<Longrightarrow> entry_key (F r) = entry_key r"
    by blast
  have n: "note_id e = n" and m: "e \<in> set t" using find_entry [OF f] by simp_all
  have "in_group (project_id e) new (F r) = (note_id r = note_id e \<or> in_group (project_id e) new r)"
    if "r \<in> set t" for r
  proof (cases "note_id r = n")
    case True
    then have "r = e" using the_entry [OF d f that] by simp
    then show ?thesis by (simp add: Fe in_group_def)
  next
    case False
    from Fk [OF False] False n show ?thesis by (simp add: in_group_def)
  qed
  then have "filter (in_group (project_id e) new \<circ> F) t
             = filter (\<lambda>r. note_id r = note_id e \<or> in_group (project_id e) new r) t"
    by (intro filter_cong) simp_all
  then have "length (group_rows (map F t) (project_id e) new)
             = length (filter (\<lambda>r. note_id r = note_id e \<or> in_group (project_id e) new r) t)"
    by (simp add: group_rows_def filter_map)
  also have "\<dots> = length (filter (in_group (project_id e) new) t)
                   + (if in_group (project_id e) new e then 0 else 1)"
    by (rule count_with_entry [OF d m])
  finally show ?thesis
    unfolding t4 group_size_def group_rows_def by (auto simp: in_group_def)
qed


section \<open>The shifts keep a dense group dense\<close>

lemma rotate_image:
  fixes a b N :: int
  assumes "1 \<le> a" "a \<le> N" "1 \<le> b" "b \<le> N"
  shows "(\<lambda>s. if s = a then b else if a < s \<and> s \<le> b then s - 1
               else if b \<le> s \<and> s < a then s + 1 else s) ` {1..N} = {1..N}"
    (is "?f ` _ = _")
proof (intro equalityI subsetI)
  fix x assume "x \<in> ?f ` {1..N}"
  then obtain s where s: "s \<in> {1..N}" "x = ?f s" by blast
  show "x \<in> {1..N}" unfolding s(2) using s(1) assms by simp
next
  fix x assume x: "x \<in> {1..N}"
  define y where "y = (if x = b then a else if a \<le> x \<and> x < b then x + 1
                        else if b < x \<and> x \<le> a then x - 1 else x)"
  have "y \<in> {1..N}" using x assms by (simp add: y_def)
  moreover have "?f y = x" using x assms unfolding y_def by (simp split: if_splits) linarith
  ultimately show "x \<in> ?f ` {1..N}" by (rule rev_image_eqI [OF _ sym])
qed

lemma close_gap_image:
  fixes a M :: int
  assumes "1 \<le> a" "a \<le> M"
  shows "(\<lambda>s. if a < s then s - 1 else s) ` ({1..M} - {a}) = {1..M - 1}"
    (is "?f ` _ = _")
proof (intro equalityI subsetI)
  fix x assume "x \<in> ?f ` ({1..M} - {a})"
  then obtain s where s: "s \<in> {1..M} - {a}" "x = ?f s" by blast
  show "x \<in> {1..M - 1}" unfolding s(2) using s(1) assms by simp
next
  fix x assume x: "x \<in> {1..M - 1}"
  define y where "y = (if a \<le> x then x + 1 else x)"
  have "y \<in> {1..M} - {a}" using x assms by (simp add: y_def)
  moreover have "?f y = x" using x assms by (simp add: y_def)
  ultimately show "x \<in> ?f ` ({1..M} - {a})" by (rule rev_image_eqI [OF _ sym])
qed

lemma open_slot_image:
  fixes b N :: int
  assumes "1 \<le> b" "b \<le> N + 1"
  shows "insert b ((\<lambda>s. if b \<le> s then s + 1 else s) ` {1..N}) = {1..N + 1}"
    (is "insert b (?f ` _) = _")
proof (intro equalityI subsetI)
  fix x assume "x \<in> insert b (?f ` {1..N})"
  then consider "x = b" | s where "s \<in> {1..N}" "x = ?f s" by blast
  then show "x \<in> {1..N + 1}" using assms by cases auto
next
  fix x assume x: "x \<in> {1..N + 1}"
  show "x \<in> insert b (?f ` {1..N})"
  proof (cases "x = b")
    case True
    then show ?thesis by simp
  next
    case False
    define y where "y = (if b < x then x - 1 else x)"
    have "y \<in> {1..N}" using x assms False by (simp add: y_def)
    moreover have "?f y = x" using x assms False by (simp add: y_def)
    ultimately have "x \<in> ?f ` {1..N}" by (rule rev_image_eqI [OF _ sym])
    then show ?thesis by simp
  qed
qed

lemma group_rows_spec_same:
  "group_rows (map (spec_shift_same n p par a q) t) p par
   = map (spec_shift_same n p par a q) (group_rows t p par)"
proof -
  have "in_group p par (spec_shift_same n p par a q r) = in_group p par r" for r
    by (simp add: spec_shift_same_def)
  then show ?thesis unfolding group_rows_map by (simp add: group_rows_def)
qed

lemma group_size_spec_same:
  "group_size (map (spec_shift_same n p par a q) t) p par = group_size t p par"
  unfolding group_size_def group_rows_spec_same by simp

lemma shifted_same_dense:
  assumes d: "distinct (map note_id t)" and f: "find (\<lambda>r. note_id r = n) t = Some e"
    and dn: "dense t (project_id e) (parent_id e)"
    and lo: "1 \<le> pos" and hi: "pos \<le> group_size t (project_id e) (parent_id e)"
  shows "dense (map (spec_shift_same n (project_id e) (parent_id e) (sequence e) pos) t)
           (project_id e) (parent_id e)"
proof -
  let ?p = "project_id e" and ?par = "parent_id e" and ?a = "sequence e"
  let ?F = "spec_shift_same n ?p ?par ?a pos"
  let ?N = "group_size t ?p ?par"
  let ?tau = "\<lambda>s. if s = ?a then pos else if ?a < s \<and> s \<le> pos then s - 1
                    else if pos \<le> s \<and> s < ?a then s + 1 else s"
  have m: "e \<in> set t" "note_id e = n" "in_group ?p ?par e"
    using find_entry [OF f] by (simp_all add: in_group_def)
  have a: "1 \<le> ?a" "?a \<le> ?N" using dense_mem [OF dn m(1) m(3)] by simp_all
  have k: "in_group ?p ?par (?F r) = in_group ?p ?par r" for r
    by (simp add: spec_shift_same_def)
  have g: "group_rows (map ?F t) ?p ?par = map ?F (group_rows t ?p ?par)"
    unfolding group_rows_map k by (simp add: group_rows_def)
  have s: "sequence (?F r) = ?tau (sequence r)" if r: "r \<in> set t" "in_group ?p ?par r" for r
  proof (cases "note_id r = n")
    case True
    then have "r = e" using the_entry [OF d f r(1)] by simp
    with m(2) show ?thesis by (simp add: spec_shift_same_def)
  next
    case False
    then have "r \<noteq> e" using m(2) by auto
    then have "sequence r \<noteq> ?a" using dense_inj [OF dn r(1) m(1) r(2) m(3)] by auto
    with False r(2) show ?thesis by (simp add: spec_shift_same_def)
  qed
  have "sequence ` set (group_rows (map ?F t) ?p ?par)
        = (\<lambda>r. sequence (?F r)) ` set (group_rows t ?p ?par)"
    unfolding g by (simp add: image_image)
  also have "\<dots> = (\<lambda>r. ?tau (sequence r)) ` set (group_rows t ?p ?par)"
    by (rule image_cong [OF refl]) (simp only: s in_group_rows)
  also have "\<dots> = ?tau ` sequence ` set (group_rows t ?p ?par)"
    by (simp only: image_image)
  also have "\<dots> = ?tau ` {1..?N}" by (simp only: dense_set [OF dn])
  also have "\<dots> = {1..?N}" using a lo hi by (rule rotate_image)
  finally have "sequence ` set (group_rows (map ?F t) ?p ?par) = {1..?N}" .
  moreover have "group_size (map ?F t) ?p ?par = ?N" by (simp add: group_size_def g)
  ultimately show ?thesis by (simp add: dense_iff_set)
qed

lemma shifted_other_dense_new:
  assumes d: "distinct (map note_id t)" and f: "find (\<lambda>r. note_id r = n) t = Some e"
    and ne: "parent_id e \<noteq> new"
    and dn: "dense t (project_id e) new"
    and lo: "1 \<le> pos" and hi: "pos \<le> group_size t (project_id e) new + 1"
  shows "dense (map (spec_shift_other n (project_id e) (parent_id e) (sequence e) new pos) t)
           (project_id e) new"
proof -
  let ?p = "project_id e" and ?old = "parent_id e" and ?a = "sequence e"
  let ?F = "spec_shift_other n ?p ?old ?a new pos"
  let ?N = "group_size t ?p new"
  let ?sg = "\<lambda>s. if pos \<le> s then s + 1 else s"
  have m: "e \<in> set t" "note_id e = n" using find_entry [OF f] by simp_all
  have nn: "note_id r \<noteq> n" if "r \<in> set t" "in_group ?p new r" for r
  proof
    assume "note_id r = n"
    then have "r = e" using the_entry [OF d f that(1)] by simp
    with that(2) ne show False by (simp add: in_group_def)
  qed
  have k: "in_group ?p new (?F r) = (r = e \<or> in_group ?p new r)" if "r \<in> set t" for r
  proof (cases "note_id r = n")
    case True
    then have "r = e" using the_entry [OF d f that] by simp
    with m(2) show ?thesis by (simp add: spec_shift_other_def in_group_def)
  next
    case False
    then have "r \<noteq> e" using m(2) by auto
    with False show ?thesis by (simp add: spec_shift_other_def in_group_def)
  qed
  have "filter (\<lambda>r. in_group ?p new (?F r)) t = filter (\<lambda>r. r = e \<or> in_group ?p new r) t"
    by (rule filter_cong [OF refl]) (rule k)
  then have "set (group_rows (map ?F t) ?p new) = ?F ` insert e (set (group_rows t ?p new))"
    unfolding group_rows_map using m(1) by (auto simp: group_rows_def)
  then have "sequence ` set (group_rows (map ?F t) ?p new)
             = insert (sequence (?F e)) ((\<lambda>r. sequence (?F r)) ` set (group_rows t ?p new))"
    by (simp add: image_image)
  also have "sequence (?F e) = pos" using m(2) by (simp add: spec_shift_other_def)
  also have "(\<lambda>r. sequence (?F r)) ` set (group_rows t ?p new)
             = (\<lambda>r. ?sg (sequence r)) ` set (group_rows t ?p new)"
  proof (rule image_cong [OF refl])
    fix r assume "r \<in> set (group_rows t ?p new)"
    then have r: "r \<in> set t" "in_group ?p new r" by (simp_all add: in_group_rows)
    then have "\<not> in_group ?p ?old r" using ne by (auto simp: in_group_def)
    with nn [OF r] r(2) show "sequence (?F r) = ?sg (sequence r)"
      by (simp add: spec_shift_other_def)
  qed
  also have "\<dots> = ?sg ` sequence ` set (group_rows t ?p new)" by (simp only: image_image)
  also have "insert pos (?sg ` sequence ` set (group_rows t ?p new)) = {1..?N + 1}"
    unfolding dense_set [OF dn] using lo hi by (rule open_slot_image)
  finally have "sequence ` set (group_rows (map ?F t) ?p new) = {1..?N + 1}" .
  moreover have "group_size (map ?F t) ?p new = ?N + 1"
    using park_shift_place_target_size [OF d f, of new pos] ne
    by (simp add: park_shift_place_spec_other [OF d f ne])
  ultimately show ?thesis by (simp add: dense_iff_set)
qed

lemma shifted_other_dense_old:
  assumes d: "distinct (map note_id t)" and f: "find (\<lambda>r. note_id r = n) t = Some e"
    and ne: "parent_id e \<noteq> new"
    and dn: "dense t (project_id e) (parent_id e)"
  shows "dense (map (spec_shift_other n (project_id e) (parent_id e) (sequence e) new pos) t)
           (project_id e) (parent_id e)"
proof -
  let ?p = "project_id e" and ?old = "parent_id e" and ?a = "sequence e"
  let ?F = "spec_shift_other n ?p ?old ?a new pos"
  let ?M = "group_size t ?p ?old"
  let ?g = "group_rows t ?p ?old"
  let ?sg = "\<lambda>s. if ?a < s then s - 1 else s"
  have m: "e \<in> set t" "note_id e = n" "in_group ?p ?old e"
    using find_entry [OF f] by (simp_all add: in_group_def)
  have a: "1 \<le> ?a" "?a \<le> ?M" using dense_mem [OF dn m(1) m(3)] by simp_all
  have k: "in_group ?p ?old (?F r) = (note_id r \<noteq> note_id e \<and> in_group ?p ?old r)" if "r \<in> set t" for r
  proof (cases "note_id r = n")
    case True
    with ne m(2) show ?thesis by (simp add: spec_shift_other_def in_group_def)
  next
    case False
    with m(2) show ?thesis by (simp add: spec_shift_other_def in_group_def)
  qed
  have fl: "filter (\<lambda>r. in_group ?p ?old (?F r)) t
            = filter (\<lambda>r. note_id r \<noteq> note_id e \<and> in_group ?p ?old r) t"
    by (rule filter_cong [OF refl]) (rule k)
  have id: "note_id r \<noteq> note_id e \<longleftrightarrow> r \<noteq> e" if "r \<in> set t" for r
    using the_entry [OF d f that] m(2) by auto
  have "set (filter (\<lambda>r. note_id r \<noteq> note_id e \<and> in_group ?p ?old r) t) = set ?g - {e}"
    using id by (auto simp: group_rows_def)
  then have "sequence ` set (group_rows (map ?F t) ?p ?old) = (\<lambda>r. sequence (?F r)) ` (set ?g - {e})"
    unfolding group_rows_map fl by (simp add: image_image)
  also have "\<dots> = (\<lambda>r. ?sg (sequence r)) ` (set ?g - {e})"
  proof (rule image_cong [OF refl])
    fix r assume "r \<in> set ?g - {e}"
    then have r: "r \<in> set t" "in_group ?p ?old r" "r \<noteq> e" by (simp_all add: in_group_rows)
    then have "note_id r \<noteq> n" using id [OF r(1)] m(2) by simp
    moreover have "\<not> in_group ?p new r" using r(2) ne by (auto simp: in_group_def)
    ultimately show "sequence (?F r) = ?sg (sequence r)"
      using r(2) by (simp add: spec_shift_other_def)
  qed
  also have "\<dots> = ?sg ` sequence ` (set ?g - {e})" by (simp only: image_image)
  also have "sequence ` (set ?g - {e}) = sequence ` set ?g - sequence ` {e}"
  proof (rule inj_on_image_set_diff [where C = "set ?g"])
    show "inj_on sequence (set ?g)"
      using dense_inj [OF dn] by (auto simp: inj_on_def in_group_rows)
    show "{e} \<subseteq> set ?g" using m by (simp add: in_group_rows)
  qed simp
  also have "\<dots> = {1..?M} - {?a}" by (simp add: dense_set [OF dn])
  also have "?sg ` ({1..?M} - {?a}) = {1..?M - 1}" using a by (rule close_gap_image)
  finally have "sequence ` set (group_rows (map ?F t) ?p ?old) = {1..?M - 1}" .
  moreover have "group_size (map ?F t) ?p ?old = ?M - 1"
  proof -
    have "length (group_rows (map ?F t) ?p ?old)
          = length (filter (\<lambda>r. note_id r \<noteq> note_id e \<and> in_group ?p ?old r) t)"
      unfolding group_rows_map fl by simp
    with count_without_entry [OF d m(1), of "in_group ?p ?old"] m(3)
    show ?thesis by (simp add: group_size_def group_rows_def)
  qed
  ultimately show ?thesis by (simp add: dense_iff_set)
qed

section \<open>The closing normalization after the shifts\<close>

text \<open>A group whose sequences are \<open>1, ..., N - 1\<close> and \<open>N + 1\<close>: the normalizer moves
  the last entry down to \<open>N\<close>. This is the state after a move within the parent to a
  position beyond the end.\<close>

lemma normalize_last_gap:
  assumes d: "distinct (map note_id t)"
    and s: "sequence ` set (group_rows t p par) = insert (group_size t p par + 1) {1..group_size t p par - 1}"
  shows "normalize_effect st t p par =
         sql_update (in_group p par) (\<lambda>r. r\<lparr>sequence := min (sequence r) (group_size t p par)\<rparr>) t"
proof -
  let ?g = "group_rows t p par"
  let ?N = "group_size t p par"
  let ?xs = "ordered_rows st ?g"
  let ?ks = "[1..?N - 1] @ [?N + 1]"
  from normalize_eq [OF d, of st p par] obtain rk where
    e: "normalize_effect st t p par =
        sql_update (in_group p par) (\<lambda>r. r\<lparr>sequence := rk (note_id r)\<rparr>) t"
    and m: "map rk (map note_id ?xs) = [1..?N]"
    by blast
  have ne: "?g \<noteq> []" using s by auto
  then have N: "1 \<le> ?N" by (cases ?g) (simp_all add: group_size_def)
  have lk: "length ?ks = length ?g" using N by (simp add: group_size_def)
  have "set (map sequence ?g) = set ?ks" using s by auto
  moreover have "card (set ?ks) = length (map sequence ?g)"
    using N lk by (simp add: card_insert_if)
  ultimately have "card (set (map sequence ?g)) = length (map sequence ?g)" by simp
  then have "distinct (map sequence ?g)" by (rule card_distinct)
  moreover have "distinct ?ks" by simp
  moreover note \<open>set (map sequence ?g) = set ?ks\<close>
  ultimately have "mset ?ks = mset (map sequence ?g)"
    using set_eq_iff_mset_eq_distinct [of "map sequence ?g" ?ks] by simp
  moreover have "sorted ?ks" by (simp add: sorted_append)
  ultimately have "sort (map sequence ?g) = ?ks" by (rule properties_for_sort)
  then have sq: "map sequence ?xs = ?ks" by (simp add: map_ordered_rows)
  have "rk (note_id r) = min (sequence r) ?N" if "r \<in> set t" "in_group p par r" for r
  proof -
    from that have "r \<in> set ?xs" by (simp add: in_group_rows)
    then obtain i where i: "i < length ?xs" "?xs ! i = r" unfolding in_set_conv_nth by blast
    then have il: "int i < ?N" by (simp add: group_size_def)
    have "rk (note_id r) = map rk (map note_id ?xs) ! i" using i by simp
    also have "\<dots> = [1..?N] ! i" by (simp only: m)
    also have "\<dots> = 1 + int i" using il by (simp add: nth_upto)
    finally have r: "rk (note_id r) = 1 + int i" .
    have "sequence r = map sequence ?xs ! i" using i by simp
    also have "\<dots> = ?ks ! i" by (simp only: sq)
    also have "\<dots> = (if int i < ?N - 1 then 1 + int i else ?N + 1)"
      using il N by (auto simp: nth_append nth_upto nat_less_iff)
    finally show ?thesis using r il by (auto simp: min_def)
  qed
  then show ?thesis unfolding e by (intro sql_update_cong) simp_all
qed

lemma move_past_end:
  assumes d: "distinct (map note_id t)" and f: "find (\<lambda>r. note_id r = n) t = Some e"
    and dn: "dense t (project_id e) (parent_id e)"
  shows "normalize_effect st
           (map (spec_shift_same n (project_id e) (parent_id e) (sequence e)
                   (group_size t (project_id e) (parent_id e) + 1)) t)
           (project_id e) (parent_id e)
         = map (spec_shift_same n (project_id e) (parent_id e) (sequence e)
                   (group_size t (project_id e) (parent_id e))) t"
proof -
  let ?p = "project_id e" and ?par = "parent_id e" and ?a = "sequence e"
  let ?N = "group_size t ?p ?par"
  let ?F = "spec_shift_same n ?p ?par ?a (?N + 1)"
  let ?G = "spec_shift_same n ?p ?par ?a ?N"
  have m: "e \<in> set t" "note_id e = n" "in_group ?p ?par e"
    using find_entry [OF f] by (simp_all add: in_group_def)
  have a: "1 \<le> ?a" "?a \<le> ?N" using dense_mem [OF dn m(1) m(3)] by simp_all
  have dG: "dense (map ?G t) ?p ?par"
    using a by (intro shifted_same_dense [OF d f dn]) simp_all
  have k: "in_group ?p ?par (?F r) = in_group ?p ?par r" for r
    by (simp add: spec_shift_same_def)
  have k': "in_group ?p ?par (?G r) = in_group ?p ?par r" for r
    by (simp add: spec_shift_same_def)
  have g: "group_rows (map ?F t) ?p ?par = map ?F (group_rows t ?p ?par)"
    by (rule group_rows_spec_same)
  have g': "group_rows (map ?G t) ?p ?par = map ?G (group_rows t ?p ?par)"
    by (rule group_rows_spec_same)
  have sz: "group_size (map ?F t) ?p ?par = ?N" by (rule group_size_spec_same)
  have sz': "group_size (map ?G t) ?p ?par = ?N" by (rule group_size_spec_same)
  have FG: "?F r = (if note_id r = n then (?G r)\<lparr>sequence := ?N + 1\<rparr> else ?G r)"
    if "r \<in> set t" for r
  proof (cases "in_group ?p ?par r")
    case True
    from dense_mem [OF dn that True] a show ?thesis by (auto simp: spec_shift_same_def)
  next
    case False
    then show ?thesis by (simp add: spec_shift_same_def)
  qed
  have Gn: "sequence (?G r) = ?N \<longleftrightarrow> note_id r = n" if r: "r \<in> set t" "in_group ?p ?par r" for r
  proof (cases "note_id r = n")
    case True
    then show ?thesis by (simp add: spec_shift_same_def)
  next
    case False
    then have "r \<noteq> e" using m(2) by auto
    then have "sequence r \<noteq> ?a" using dense_inj [OF dn r(1) m(1) r(2) m(3)] by auto
    with False r(2) dense_mem [OF dn r] a show ?thesis by (simp add: spec_shift_same_def)
  qed
  have sF: "sequence (?F r) = (if sequence (?G r) = ?N then ?N + 1 else sequence (?G r))"
    if r: "r \<in> set t" "in_group ?p ?par r" for r
    using FG [OF r(1)] Gn [OF r] by simp
  have "sequence ` set (group_rows (map ?F t) ?p ?par)
        = (\<lambda>r. sequence (?F r)) ` set (group_rows t ?p ?par)"
    unfolding g by (simp add: image_image)
  also have "\<dots> = (\<lambda>r. if sequence (?G r) = ?N then ?N + 1 else sequence (?G r)) ` set (group_rows t ?p ?par)"
    by (rule image_cong [OF refl]) (simp only: sF in_group_rows)
  also have "\<dots> = (\<lambda>s. if s = ?N then ?N + 1 else s) ` (\<lambda>r. sequence (?G r)) ` set (group_rows t ?p ?par)"
    by (simp only: image_image)
  also have "(\<lambda>r. sequence (?G r)) ` set (group_rows t ?p ?par)
             = sequence ` set (group_rows (map ?G t) ?p ?par)"
    by (simp only: g' set_map image_image)
  also have "\<dots> = {1..?N}"
    by (simp only: dense_set [OF dG] sz')
  also have "(\<lambda>s. if s = ?N then ?N + 1 else s) ` {1..?N} = insert (?N + 1) {1..?N - 1}"
  proof (intro equalityI subsetI)
    fix x assume "x \<in> (\<lambda>s. if s = ?N then ?N + 1 else s) ` {1..?N}"
    then obtain s where "s \<in> {1..?N}" "x = (if s = ?N then ?N + 1 else s)" by blast
    then show "x \<in> insert (?N + 1) {1..?N - 1}" by (cases "s = ?N") simp_all
  next
    fix x assume x: "x \<in> insert (?N + 1) {1..?N - 1}"
    define y where "y = (if x = ?N + 1 then ?N else x)"
    have "y \<in> {1..?N}" using x a by (auto simp: y_def)
    moreover have "(if y = ?N then ?N + 1 else y) = x" using x by (auto simp: y_def)
    ultimately show "x \<in> (\<lambda>s. if s = ?N then ?N + 1 else s) ` {1..?N}"
      by (rule rev_image_eqI [OF _ sym])
  qed
  finally have s: "sequence ` set (group_rows (map ?F t) ?p ?par)
      = insert (group_size (map ?F t) ?p ?par + 1) {1..group_size (map ?F t) ?p ?par - 1}"
    by (simp only: sz)
  have "note_id (?F r) = note_id r" for r by (auto simp: spec_shift_same_def)
  then have dF: "distinct (map note_id (map ?F t))"
    using d by (simp add: comp_def)
  have "min (sequence (?F r)) ?N = sequence (?G r) \<and> entry_key (?F r) = entry_key (?G r)"
    if r: "r \<in> set t" "in_group ?p ?par r" for r
  proof (cases "note_id r = n")
    case True
    then show ?thesis by (simp add: spec_shift_same_def)
  next
    case False
    then have "r \<noteq> e" using m(2) by auto
    then have "sequence r \<noteq> ?a" using dense_inj [OF dn r(1) m(1) r(2) m(3)] by auto
    with False r(2) dense_mem [OF dn r] a show ?thesis by (simp add: spec_shift_same_def)
  qed
  then have row: "(?F r)\<lparr>sequence := min (sequence (?F r)) ?N\<rparr> = ?G r"
    if "r \<in> set t" "in_group ?p ?par r" for r
    using that by (intro note_sequence.equality) simp_all
  have oth: "?F r = ?G r" if "\<not> in_group ?p ?par r" "note_id r \<noteq> n" for r
    using that by (simp add: spec_shift_same_def)
  have "sql_update (in_group ?p ?par) (\<lambda>r. r\<lparr>sequence := min (sequence r) ?N\<rparr>) (map ?F t) = map ?G t"
    unfolding sql_update_def map_map comp_def
  proof (rule map_cong [OF refl])
    fix r assume r: "r \<in> set t"
    show "(if in_group ?p ?par (?F r) then (?F r)\<lparr>sequence := min (sequence (?F r)) ?N\<rparr> else ?F r) = ?G r"
    proof (cases "in_group ?p ?par r")
      case True
      with row [OF r True] show ?thesis by (simp add: k)
    next
      case False
      then have "note_id r \<noteq> n" using the_entry [OF d f r] m(3) by auto
      with oth [OF False] False show ?thesis by (simp add: k')
    qed
  qed
  then show ?thesis unfolding normalize_last_gap [OF dF s] sz .
qed

lemma move_same_parent_final:
  assumes d: "distinct (map note_id t)" and f: "find (\<lambda>r. note_id r = n) t = Some e"
    and dn: "dense t (project_id e) (parent_id e)"
  shows "normalize_affected_effect st
           (park_shift_place_effect t n (project_id e) (parent_id e) (sequence e) (parent_id e)
              (clamped t (project_id e) (parent_id e) pos))
           (project_id e) (parent_id e) (parent_id e)
         = map (spec_shift_same n (project_id e) (parent_id e) (sequence e)
                  (max 1 (min pos (group_size t (project_id e) (parent_id e))))) t"
proof -
  let ?p = "project_id e" and ?par = "parent_id e" and ?a = "sequence e"
  let ?N = "group_size t ?p ?par"
  have m: "e \<in> set t" "in_group ?p ?par e"
    using find_entry(1) [OF f] by (simp_all add: in_group_def)
  have N: "1 \<le> ?N" using dense_mem [OF dn m] by simp
  have c: "clamped t ?p ?par pos = max 1 (min pos (?N + 1))"
    by (rule clamp_position_dense [OF dn])
  have na: "normalize_affected_effect st t' ?p ?par ?par = normalize_effect st t' ?p ?par" for t'
    by (simp add: normalize_affected_effect_def)
  show ?thesis
  proof (cases "pos \<le> ?N")
    case True
    let ?q = "max 1 (min pos ?N)"
    have q: "clamped t ?p ?par pos = ?q" using True N by (simp add: c)
    have dq: "dense (map (spec_shift_same n ?p ?par ?a ?q) t) ?p ?par"
      using N by (intro shifted_same_dense [OF d f dn]) simp_all
    have "distinct (map note_id (map (spec_shift_same n ?p ?par ?a ?q) t))"
      using d park_shift_place_note_ids [of t n ?p ?par ?a ?par ?q]
      by (simp only: park_shift_place_spec_same [OF d f])
    from normalize_dense_id [OF this dq] show ?thesis
      unfolding q na park_shift_place_spec_same [OF d f] .
  next
    case False
    then have q: "clamped t ?p ?par pos = ?N + 1" "max 1 (min pos ?N) = ?N"
      using N by (simp_all add: c)
    show ?thesis
      unfolding q na park_shift_place_spec_same [OF d f] by (rule move_past_end [OF d f dn])
  qed
qed

lemma move_other_parent_final:
  assumes d: "distinct (map note_id t)" and f: "find (\<lambda>r. note_id r = n) t = Some e"
    and ne: "parent_id e \<noteq> new"
    and dno: "dense t (project_id e) (parent_id e)" and dnn: "dense t (project_id e) new"
  shows "normalize_affected_effect st
           (park_shift_place_effect t n (project_id e) (parent_id e) (sequence e) new
              (clamped t (project_id e) new pos))
           (project_id e) (parent_id e) new
         = map (spec_shift_other n (project_id e) (parent_id e) (sequence e) new
                  (max 1 (min pos (group_size t (project_id e) new + 1)))) t"
proof -
  let ?p = "project_id e" and ?old = "parent_id e" and ?a = "sequence e"
  let ?q = "max 1 (min pos (group_size t ?p new + 1))"
  let ?t4 = "map (spec_shift_other n ?p ?old ?a new ?q) t"
  have N: "0 \<le> group_size t ?p new" by (simp add: group_size_def)
  have c: "clamped t ?p new pos = ?q" by (rule clamp_position_dense [OF dnn])
  have d4: "distinct (map note_id ?t4)"
    using d park_shift_place_note_ids [of t n ?p ?old ?a new ?q]
    by (simp only: park_shift_place_spec_other [OF d f ne])
  have o: "dense ?t4 ?p ?old" by (rule shifted_other_dense_old [OF d f ne dno])
  have n: "dense ?t4 ?p new" using N by (intro shifted_other_dense_new [OF d f ne dnn]) simp_all
  show ?thesis
    unfolding c park_shift_place_spec_other [OF d f ne]
    by (rule normalize_affected_dense_id [OF d4 o n])
qed


section \<open>A call that returns has written what its statements say\<close>

text \<open>Whatever the order in which the store visits the rows, an \<^verbatim>\<open>UPDATE\<close> that is not
  aborted has rewritten exactly the rows that meet its \<^verbatim>\<open>WHERE\<close>.\<close>

lemma and_then_Inr: "and_then m k = Inr y \<longleftrightarrow> (\<exists>x. m = Inr x \<and> k x = Inr y)"
  by (cases m) (simp_all add: and_then_def)

lemma sql_integer_Inr: "sql_integer v = Inr w \<Longrightarrow> w = v"
  by (simp add: sql_integer_def split: if_splits)

lemma update_rows_nth:
  assumes "distinct ord" and "\<And>r r'. c r \<Longrightarrow> f r = Inr r' \<Longrightarrow> r' = g r"
    and "update_rows c f ord t = Inr t'"
  shows "length t' = length t
       \<and> (\<forall>i<length t. t' ! i = (if i \<in> set ord \<and> c (t ! i) then g (t ! i) else t ! i))"
  using assms(1,3)
proof (induction ord arbitrary: t)
  case Nil
  then show ?case by simp
next
  case (Cons i ord)
  from Cons.prems have d: "distinct ord" and ni: "i \<notin> set ord" by simp_all
  show ?case
  proof (cases "i < length t \<and> c (t ! i)")
    case False
    with Cons.prems have "update_rows c f ord t = Inr t'" by auto
    from Cons.IH [OF d this] False ni show ?thesis by auto
  next
    case True
    with Cons.prems obtain r where r: "f (t ! i) = Inr r"
      and u: "update_rows c f ord (t[i := r]) = Inr t'"
      by (auto split: sum.splits if_splits)
    from assms(2) [OF _ r] True have g: "r = g (t ! i)" by simp
    from Cons.IH [OF d u] have l: "length t' = length t"
      and n: "\<And>j. j < length t \<Longrightarrow>
                t' ! j = (if j \<in> set ord \<and> c (t[i := r] ! j) then g (t[i := r] ! j) else t[i := r] ! j)"
      by simp_all
    have "t' ! j = (if j \<in> set (i # ord) \<and> c (t ! j) then g (t ! j) else t ! j)"
      if "j < length t" for j
    proof (cases "j = i")
      case True
      with n [OF that] ni g \<open>i < length t \<and> c (t ! i)\<close> show ?thesis by simp
    next
      case False
      with n [OF that] show ?thesis by simp
    qed
    with l show ?thesis by simp
  qed
qed

lemma update_rows_writes:
  assumes "distinct ord" and "set ord = {0..<length t}"
    and "\<And>r r'. c r \<Longrightarrow> f r = Inr r' \<Longrightarrow> r' = g r"
    and "update_rows c f ord t = Inr t'"
  shows "t' = sql_update c g t"
proof (rule nth_equalityI)
  from update_rows_nth [OF assms(1) assms(3) assms(4)]
  have l: "length t' = length t"
    and n: "\<And>i. i < length t \<Longrightarrow> t' ! i = (if i \<in> set ord \<and> c (t ! i) then g (t ! i) else t ! i)"
    by simp_all
  show "length t' = length (sql_update c g t)" by (simp add: l sql_update_def)
  fix i assume "i < length t'"
  with l have i: "i < length t" by simp
  with n [OF i] assms(2) show "t' ! i = sql_update c g t ! i" by (simp add: sql_update_def)
qed

lemma update_note_sequences_writes:
  assumes "admissible st" and "\<And>r r'. c r \<Longrightarrow> f r = Inr r' \<Longrightarrow> r' = g r"
    and "update_note_sequences st c f t = Inr t'"
  shows "t' = sql_update c g t"
  using assms(1,3) unfolding update_note_sequences_def admissible_def
  by (intro update_rows_writes [where ord = "visit st t" and f = f, OF _ _ assms(2)]) auto

lemma sequence_minus_one_Inr: "sequence_minus_one r = Inr r' \<Longrightarrow> r' = r\<lparr>sequence := sequence r - 1\<rparr>"
  by (auto simp: sequence_minus_one_def and_then_Inr dest: sql_integer_Inr)

lemma sequence_plus_one_Inr: "sequence_plus_one r = Inr r' \<Longrightarrow> r' = r\<lparr>sequence := sequence r + 1\<rparr>"
  by (auto simp: sequence_plus_one_def and_then_Inr dest: sql_integer_Inr)

lemma clamp_position_writes:
  "clamp_position t p new pos = Inr q \<Longrightarrow> q = clamped t p new pos"
  by (auto simp: clamp_position_def clamped_def and_then_Inr dest: sql_integer_Inr)

lemma park_writes:
  assumes "admissible st" and "park st ns t n new = Inr t'"
  shows "t' = park_effect t n new"
proof -
  from assms(2) obtain t1 where
    "update_note_sequences st (\<lambda>r. note_id r = n)
       (\<lambda>r. Inr (r\<lparr>parent_id := new, sequence := v_temp_sequence\<rparr>)) t = Inr t1" and "t1 = t'"
    by (auto simp: park_def and_then_Inr split: if_splits)
  with update_note_sequences_writes [OF assms(1), of "\<lambda>r. note_id r = n"
      "\<lambda>r. Inr (r\<lparr>parent_id := new, sequence := v_temp_sequence\<rparr>)"
      "\<lambda>r. r\<lparr>parent_id := new, sequence := v_temp_sequence\<rparr>" t t1]
  show ?thesis by (simp add: park_effect_def)
qed

lemma place_writes:
  assumes "admissible st" and "place st t n q = Inr t'"
  shows "t' = place_effect t n q"
  using update_note_sequences_writes [OF assms(1), of "\<lambda>r. note_id r = n" "set_sequence q"
      "\<lambda>r. r\<lparr>sequence := q\<rparr>" t t'] assms(2)
  by (simp add: place_def place_effect_def set_sequence_def)

lemma shift_sequences_writes:
  assumes a: "admissible st" and s: "shift_sequences st t p old olds new q = Inr t'"
  shows "t' = shift_effect t p old olds new q"
proof -
  have dec: "t2 = sql_update c (\<lambda>r. r\<lparr>sequence := sequence r - 1\<rparr>) t1"
    if "update_note_sequences st c sequence_minus_one t1 = Inr t2" for c t1 t2
    by (rule update_note_sequences_writes [OF a _ that]) (rule sequence_minus_one_Inr)
  have inc: "t2 = sql_update c (\<lambda>r. r\<lparr>sequence := sequence r + 1\<rparr>) t1"
    if "update_note_sequences st c sequence_plus_one t1 = Inr t2" for c t1 t2
    by (rule update_note_sequences_writes [OF a _ that]) (rule sequence_plus_one_Inr)
  show ?thesis
  proof (cases "old = new")
    case True
    show ?thesis
    proof (cases "olds < q")
      case True
      with \<open>old = new\<close> s show ?thesis by (simp add: shift_sequences_def shift_effect_def dec)
    next
      case False
      with \<open>old = new\<close> s show ?thesis by (simp add: shift_sequences_def shift_effect_def inc)
    qed
  next
    case False
    with s obtain t1 where
      1: "update_note_sequences st (\<lambda>r. in_group p old r \<and> sequence r > olds) sequence_minus_one t = Inr t1"
      and 2: "update_note_sequences st (\<lambda>r. in_group p new r \<and> sequence r \<ge> q) sequence_plus_one t1 = Inr t'"
      by (auto simp: shift_sequences_def and_then_Inr)
    from dec [OF 1] inc [OF 2] False show ?thesis by (simp add: shift_effect_def)
  qed
qed

lemma renumber_writes:
  assumes "admissible st"
  shows "renumber st t ids c = Inr t' \<Longrightarrow> t' = renumber_effect t ids c"
proof (induction ids arbitrary: t c)
  case Nil
  then show ?case by simp
next
  case (Cons i ids)
  from Cons.prems obtain t1 c1 where
    1: "update_note_sequences st (\<lambda>r. note_id r = i) (set_sequence c) t = Inr t1"
    and 2: "sql_integer (c + 1) = Inr c1" and 3: "renumber st t1 ids c1 = Inr t'"
    by (auto simp: and_then_Inr)
  from update_note_sequences_writes [OF assms, of "\<lambda>r. note_id r = i" "set_sequence c"
      "\<lambda>r. r\<lparr>sequence := c\<rparr>" t t1] 1
  have "t1 = sql_update (\<lambda>r. note_id r = i) (\<lambda>r. r\<lparr>sequence := c\<rparr>) t"
    by (simp add: set_sequence_def)
  with Cons.IH [OF 3] sql_integer_Inr [OF 2] show ?case by simp
qed

lemma normalize_writes:
  assumes "admissible st" and "normalize_note_sequences st t p par = Inr t'"
  shows "t' = normalize_effect st t p par"
  using renumber_writes [OF assms(1)] assms(2)
  by (simp add: normalize_note_sequences_def normalize_effect_def ordered_rows_admissible [OF assms(1)])

lemma normalize_affected_writes:
  assumes "admissible st" and "normalize_affected st t p old new = Inr t'"
  shows "t' = normalize_affected_effect st t p old new"
  using assms(2) normalize_writes [OF assms(1)]
  by (auto simp: normalize_affected_def normalize_affected_effect_def and_then_Inr Let_def split: if_splits)

lemma set_parent_writes:
  "set_parent ns n new = Inr ns' \<Longrightarrow> ns' = sql_update (\<lambda>x. n_id x = n) (\<lambda>x. x\<lparr>n_parent_id := new\<rparr>) ns"
  by (simp add: set_parent_def split: if_splits)

lemma move_note_writes:
  assumes a: "admissible st" and f: "find (\<lambda>r. note_id r = n) (db_note_sequences db) = Some e"
    and m: "move_note st db now n new pos = Inr db'"
  shows "db_note_sequences db' =
           normalize_affected_effect st
             (park_shift_place_effect (db_note_sequences db) n (project_id e) (parent_id e) (sequence e) new
                (clamped (db_note_sequences db) (project_id e) new pos))
             (project_id e) (parent_id e) new"
    and "db_notes db' = sql_update (\<lambda>x. n_id x = n) (\<lambda>x. x\<lparr>n_parent_id := new\<rparr>) (db_notes db)"
    and "db_settings db' = sql_update (\<lambda>s. s_id s = project_id e)
                             (\<lambda>s. s\<lparr>last_modified_at := now\<rparr>) (db_settings db)"
proof -
  let ?t = "db_note_sequences db"
  from m f obtain q t1 ns t3 t4 t5 where
    q: "clamp_position ?t (project_id e) new pos = Inr q"
    and 1: "park st (db_notes db) ?t n new = Inr t1"
    and 2: "set_parent (db_notes db) n new = Inr ns"
    and 3: "shift_sequences st t1 (project_id e) (parent_id e) (sequence e) new q = Inr t3"
    and 4: "place st t3 n q = Inr t4"
    and 5: "normalize_affected st t4 (project_id e) (parent_id e) new = Inr t5"
    and r: "db' = \<lparr>db_notes = ns, db_note_sequences = t5,
                   db_settings = sql_update (\<lambda>s. s_id s = project_id e)
                                   (\<lambda>s. s\<lparr>last_modified_at := now\<rparr>) (db_settings db)\<rparr>"
    by (auto simp: move_note_def Let_def and_then_Inr)
  have "t4 = park_shift_place_effect ?t n (project_id e) (parent_id e) (sequence e) new
               (clamped ?t (project_id e) new pos)"
    unfolding park_shift_place_effect_def
    using clamp_position_writes [OF q] park_writes [OF a 1] shift_sequences_writes [OF a 3]
      place_writes [OF a 4] by simp
  with normalize_affected_writes [OF a 5] r
  show "db_note_sequences db' =
           normalize_affected_effect st
             (park_shift_place_effect (db_note_sequences db) n (project_id e) (parent_id e) (sequence e) new
                (clamped (db_note_sequences db) (project_id e) new pos))
             (project_id e) (parent_id e) new" by simp
  from set_parent_writes [OF 2] r
  show "db_notes db' = sql_update (\<lambda>x. n_id x = n) (\<lambda>x. x\<lparr>n_parent_id := new\<rparr>) (db_notes db)" by simp
  from r show "db_settings db' = sql_update (\<lambda>s. s_id s = project_id e)
                             (\<lambda>s. s\<lparr>last_modified_at := now\<rparr>) (db_settings db)" by simp
qed

lemma move_note_not_found:
  "n \<notin> note_id ` set (db_note_sequences db) \<Longrightarrow> move_note st db now n new pos = Inl (NoteNotFound n)"
proof -
  assume "n \<notin> note_id ` set (db_note_sequences db)"
  then have "find (\<lambda>r. note_id r = n) (db_note_sequences db) = None"
    by (auto simp: find_None_iff)
  then show ?thesis by (simp add: move_note_def)
qed

section \<open>Calls that meet no check of the store\<close>

lemma unique_conflict_iff:
  "unique_conflict t i \<longleftrightarrow>
     parent_id (t ! i) \<noteq> None \<and>
     (\<exists>j<length t. j \<noteq> i \<and> project_id (t ! j) = project_id (t ! i)
        \<and> parent_id (t ! j) = parent_id (t ! i) \<and> sequence (t ! j) = sequence (t ! i))"
  by (auto simp: unique_conflict_def list_ex_iff)

lemma update_rows_none:
  "(\<And>i. i \<in> set ord \<Longrightarrow> i < length t \<Longrightarrow> \<not> c (t ! i)) \<Longrightarrow> update_rows c f ord t = Inr t"
  by (induction ord) auto

lemma update_rows_one:
  assumes "distinct ord" and "i0 \<in> set ord" and "i0 < length t" and "c (t ! i0)"
    and "\<And>j. j < length t \<Longrightarrow> j \<noteq> i0 \<Longrightarrow> \<not> c (t ! j)"
    and "f (t ! i0) = Inr r" and "\<not> unique_conflict (t[i0 := r]) i0"
  shows "update_rows c f ord t = Inr (t[i0 := r])"
  using assms(1,2)
proof (induction ord)
  case Nil
  then show ?case by simp
next
  case (Cons i ord)
  show ?case
  proof (cases "i = i0")
    case True
    with Cons.prems have "i0 \<notin> set ord" by simp
    then have "update_rows c f ord (t[i0 := r]) = Inr (t[i0 := r])"
      using assms(5) by (intro update_rows_none) (metis length_list_update nth_list_update_neq)
    with True assms(3,4,6,7) show ?thesis by simp
  next
    case False
    with Cons.prems have "distinct ord" "i0 \<in> set ord" by simp_all
    from Cons.IH [OF this] False assms(5) [of i] show ?thesis by auto
  qed
qed

lemma distinct_ids_nth:
  "distinct (map note_id t) \<Longrightarrow> i < length t \<Longrightarrow> j < length t \<Longrightarrow>
   note_id (t ! i) = note_id (t ! j) \<Longrightarrow> i = j"
  using nth_eq_iff_index_eq [of "map note_id t" i j] by simp

lemma update_entry:
  assumes a: "admissible st" and d: "distinct (map note_id t)" and i: "i0 < length t"
    and n: "note_id (t ! i0) = n" and f: "f (t ! i0) = Inr r"
    and u: "\<not> unique_conflict (t[i0 := r]) i0"
  shows "update_note_sequences st (\<lambda>r. note_id r = n) f t = Inr (t[i0 := r])"
  unfolding update_note_sequences_def
proof (rule update_rows_one [where ?i0.0 = i0 and r = r])
  show "i0 < length t" by (rule i)
  show "f (t ! i0) = Inr r" by (rule f)
  show "\<not> unique_conflict (t[i0 := r]) i0" by (rule u)
  from a show "distinct (visit st t)" by (simp add: admissible_def)
  from a i show "i0 \<in> set (visit st t)" by (simp add: admissible_def)
  from n show "note_id (t ! i0) = n" .
  fix j assume j: "j < length t" "j \<noteq> i0"
  with distinct_ids_nth [OF d i j(1)] n show "note_id (t ! j) \<noteq> n" by auto
qed

lemma dense_no_conflict:
  assumes d: "distinct (map note_id t)" and dn: "dense t p par" and i: "i < length t"
    and g: "in_group p par (t ! i)"
  shows "\<not> unique_conflict t i"
proof
  assume "unique_conflict t i"
  then obtain j where j: "j < length t" "j \<noteq> i" "project_id (t ! j) = project_id (t ! i)"
    "parent_id (t ! j) = parent_id (t ! i)" "sequence (t ! j) = sequence (t ! i)"
    by (auto simp: unique_conflict_iff)
  with g have "in_group p par (t ! j)" by (simp add: in_group_def)
  from dense_inj [OF dn _ _ this g j(5)] i j(1) have "t ! j = t ! i" by simp
  then have "note_id (t ! j) = note_id (t ! i)" by simp
  with distinct_ids_nth [OF d j(1) i] j(2) show False by simp
qed

lemma sql_integer_in_range:
  "- 2147483648 \<le> v \<Longrightarrow> v \<le> 2147483647 \<Longrightarrow> sql_integer v = Inr v"
  by (simp add: sql_integer_def)

text \<open>The loop on rows that already carry their rank writes every row as it is.\<close>

lemma renumber_fixed:
  assumes a: "admissible st" and d: "distinct (map note_id t)"
  shows "(\<And>k. k < length ids \<Longrightarrow>
            \<exists>i<length t. note_id (t ! i) = ids ! k \<and> sequence (t ! i) = c + int k
                         \<and> \<not> unique_conflict t i) \<Longrightarrow>
         0 \<le> c \<Longrightarrow> c + int (length ids) \<le> 2147483647 \<Longrightarrow> renumber st t ids c = Inr t"
proof (induction ids arbitrary: c)
  case Nil
  show ?case by simp
next
  case (Cons x ids)
  from Cons.prems(1) [of 0] obtain i where i: "i < length t" "note_id (t ! i) = x"
    "sequence (t ! i) = c" "\<not> unique_conflict t i" by auto
  have same: "(t ! i)\<lparr>sequence := c\<rparr> = t ! i" using i(3) by simp
  have 1: "update_note_sequences st (\<lambda>r. note_id r = x) (set_sequence c) t = Inr t"
    using update_entry [OF a d i(1,2), of "set_sequence c" "t ! i"] i(4)
    by (simp add: set_sequence_def same)
  have 2: "sql_integer (c + 1) = Inr (c + 1)"
    using Cons.prems(2,3) by (intro sql_integer_in_range) simp_all
  have 3: "renumber st t ids (c + 1) = Inr t"
  proof (rule Cons.IH)
    fix k assume "k < length ids"
    with Cons.prems(1) [of "Suc k"]
    show "\<exists>i<length t. note_id (t ! i) = ids ! k \<and> sequence (t ! i) = c + 1 + int k
                       \<and> \<not> unique_conflict t i" by (simp add: algebra_simps)
  next
    from Cons.prems(2) show "0 \<le> c + 1" by simp
    from Cons.prems(3) show "c + 1 + int (length ids) \<le> 2147483647" by simp
  qed
  show ?case by (simp add: 1 2 3 and_then_def)
qed

lemma normalize_dense_returns:
  assumes a: "admissible st" and d: "distinct (map note_id t)" and dn: "dense t p par"
    and b: "group_size t p par < 2147483647"
  shows "normalize_note_sequences st t p par = Inr t"
proof -
  let ?g = "group_rows t p par"
  let ?xs = "ordered_rows st ?g"
  have s: "map sequence ?xs = [1..group_size t p par]"
    using dn by (simp add: dense_def map_ordered_rows)
  have "renumber st t (map note_id ?xs) 1 = Inr t"
  proof (rule renumber_fixed [OF a d])
    fix k assume "k < length (map note_id ?xs)"
    then have k: "k < length ?xs" by simp
    then have "?xs ! k \<in> set ?xs" by (rule nth_mem)
    then have m: "?xs ! k \<in> set t" "in_group p par (?xs ! k)" by (simp_all add: in_group_rows)
    then obtain i where i: "i < length t" "t ! i = ?xs ! k" unfolding in_set_conv_nth by blast
    have "sequence (?xs ! k) = map sequence ?xs ! k" using k by simp
    also have "\<dots> = 1 + int k" using k unfolding s by (simp add: group_size_def nth_upto)
    finally have q: "sequence (t ! i) = 1 + int k" using i by simp
    from dense_no_conflict [OF d dn i(1)] m(2) i(2) have "\<not> unique_conflict t i" by simp
    with i q k show "\<exists>i<length t. note_id (t ! i) = map note_id ?xs ! k
                       \<and> sequence (t ! i) = 1 + int k \<and> \<not> unique_conflict t i" by auto
  next
    show "(0::int) \<le> 1" by simp
    from b show "1 + int (length (map note_id ?xs)) \<le> 2147483647" by (simp add: group_size_def)
  qed
  then show ?thesis
    by (simp add: normalize_note_sequences_def ordered_rows_admissible [OF a])
qed

text \<open>A move of a note to its own parent and sequence, in a dense group whose parent
  is a note: no statement fails, unless the group is so large that the integer range
  or, in a group that is not the root group, the temporary sequence is reached.\<close>

lemma move_in_place_returns:
  assumes a: "admissible st" and d: "distinct (map note_id (db_note_sequences db))"
    and f: "find (\<lambda>r. note_id r = n) (db_note_sequences db) = Some e"
    and dn: "dense (db_note_sequences db) (project_id e) (parent_id e)"
    and fk: "is_note (db_notes db) (parent_id e)"
    and b: "group_size (db_note_sequences db) (project_id e) (parent_id e) < 2147483647"
    and u: "parent_id e \<noteq> None \<longrightarrow>
            group_size (db_note_sequences db) (project_id e) (parent_id e) < v_temp_sequence"
  shows "move_note st db now n (parent_id e) (sequence e) =
           Inr \<lparr>db_notes = sql_update (\<lambda>x. n_id x = n) (\<lambda>x. x\<lparr>n_parent_id := parent_id e\<rparr>) (db_notes db),
                db_note_sequences = db_note_sequences db,
                db_settings = sql_update (\<lambda>s. s_id s = project_id e)
                                (\<lambda>s. s\<lparr>last_modified_at := now\<rparr>) (db_settings db)\<rparr>"
proof -
  let ?t = "db_note_sequences db"
  let ?p = "project_id e" and ?par = "parent_id e"
  let ?N = "group_size ?t ?p ?par"
  let ?e' = "e\<lparr>sequence := v_temp_sequence\<rparr>"
  from find_entry [OF f] have e: "e \<in> set ?t" "note_id e = n" .
  then obtain i where i: "i < length ?t" "?t ! i = e" unfolding in_set_conv_nth by blast
  have ge: "in_group ?p ?par e" by (simp add: in_group_def)
  from dense_mem [OF dn e(1) ge] have se: "1 \<le> sequence e" "sequence e \<le> ?N" .
  let ?t1 = "?t[i := ?e']"
  have N: "?N < 2147483647" using b .
  have 0: "clamp_position ?t ?p ?par (sequence e) = Inr (sequence e)"
    using se N by (simp add: clamp_position_def dense_max_sequence [OF dn] sql_integer_def and_then_def)
  have nc1: "\<not> unique_conflict ?t1 i"
  proof
    assume "unique_conflict ?t1 i"
    then obtain j where j: "j < length ?t" "j \<noteq> i" "project_id (?t1 ! j) = project_id (?t1 ! i)"
      "parent_id (?t1 ! j) = parent_id (?t1 ! i)" "sequence (?t1 ! j) = sequence (?t1 ! i)"
      by (auto simp: unique_conflict_iff)
    with i have "in_group ?p ?par (?t ! j)" "sequence (?t ! j) = v_temp_sequence"
      by (simp_all add: in_group_def)
    moreover from \<open>unique_conflict ?t1 i\<close> i have "parent_id e \<noteq> None"
      by (simp add: unique_conflict_iff)
    ultimately show False using dense_mem(2) [OF dn nth_mem [OF j(1)]] u by simp
  qed
  have "update_note_sequences st (\<lambda>r. note_id r = n) (\<lambda>r. Inr (r\<lparr>parent_id := ?par, sequence := v_temp_sequence\<rparr>)) ?t
        = Inr ?t1"
    using update_entry [OF a d i(1), of n "\<lambda>r. Inr (r\<lparr>parent_id := ?par, sequence := v_temp_sequence\<rparr>)" ?e']
      i(2) e(2) nc1 by simp
  moreover have "\<not> list_ex (\<lambda>r. note_id r = n \<and> parent_id r \<noteq> ?par) ?t"
    using the_entry [OF d f] by (auto simp: list_ex_iff)
  ultimately have 1: "park st (db_notes db) ?t n ?par = Inr ?t1"
    by (simp add: park_def and_then_def)
  have 2: "set_parent (db_notes db) n ?par
           = Inr (sql_update (\<lambda>x. n_id x = n) (\<lambda>x. x\<lparr>n_parent_id := ?par\<rparr>) (db_notes db))"
    using fk by (simp add: set_parent_def)
  have 3: "shift_sequences st ?t1 ?p ?par (sequence e) ?par (sequence e) = Inr ?t1"
    by (simp add: shift_sequences_def update_note_sequences_def update_rows_none)
  have d1: "distinct (map note_id ?t1)"
    using d i e(2) by (simp add: map_update) (metis list_update_id nth_map length_map)
  have r4: "set_sequence (sequence e) (?t1 ! i) = Inr e"
    using i by (simp add: set_sequence_def)
  have same: "?t[i := e] = ?t"
    using list_update_id [of ?t i] i(2) by simp
  then have undo: "?t1[i := e] = ?t" by simp
  have nc: "\<not> unique_conflict (?t1[i := e]) i"
    unfolding undo using dense_no_conflict [OF d dn i(1)] i(2) ge by simp
  have n4: "note_id (?t1 ! i) = n" and l4: "i < length ?t1" using i e(2) by simp_all
  from update_entry [where st = st and t = ?t1 and ?i0.0 = i and n = n
      and f = "set_sequence (sequence e)" and r = e, OF a d1 l4 n4 r4 nc]
  have 4: "place st ?t1 n (sequence e) = Inr ?t"
    by (simp add: place_def same)
  have 5: "normalize_affected st ?t ?p ?par ?par = Inr ?t"
    using normalize_dense_returns [OF a d dn] N by (simp add: normalize_affected_def and_then_def)
  show ?thesis
    using f by (simp add: move_note_def Let_def 0 1 2 3 4 5 and_then_def)
qed

section \<open>The store's checks on examples\<close>

text \<open>The two stores of the examples are admissible.\<close>

lemma list_order_admissible: "admissible list_order"
  by (simp add: admissible_def list_order_def)

lemma last_first_admissible: "admissible last_first"
  by (simp add: admissible_def last_first_def)

text \<open>Calls that the store aborts: the unique index while a group is opened or
  renumbered row by row, the foreign key of \<^verbatim>\<open>parent_id\<close> for a parent that is no note,
  the integer range at \<^verbatim>\<open>MAX(sequence) + 1\<close>.\<close>

lemma aborted_calls:
  "move_note list_order (store_of two_full_parents) 7 2 (Some 11) 1 = Inl UniqueViolation"
  "move_note list_order (store_of three_children) 7 3 (Some 10) 1 = Inl UniqueViolation"
  "normalize_note_sequences list_order children_from_zero 1 (Some 10) = Inl UniqueViolation"
  "move_note list_order (store_of roots_abc) 7 2 (Some 99) 1 = Inl ForeignKeyViolation"
  "move_note list_order (store_of [order_entry 1 None 1, order_entry 2 None 2147483647]) 7 1 None 1
     = Inl NumericValueOutOfRange"
  "get_next_sequence [order_entry 1 None 2147483647] 1 None = Inl NumericValueOutOfRange"
  by code_simp+

text \<open>Whether the unique index aborts a shift depends on the order of the visit: the
  move that is aborted when \<open>R\<close> is raised to 2 before \<open>S\<close> has left 2 returns when \<open>S\<close>
  is visited first.\<close>

lemma visit_order_decides:
  "move_note list_order (store_of two_full_parents) 7 2 (Some 11) 1 = Inl UniqueViolation"
  "move_note last_first (store_of two_full_parents) 7 2 (Some 11) 1 = Inr (stamped moved_q_full 6 7)"
  by code_simp+

section \<open>Claims about the order of a group\<close>

text \<open>
  Claim C1, as the code has it. On a store with unique note identifiers whose groups
  are all dense, a move that returns, a normalization of any group that returns, and a
  successful creation whose sequence is the one \<^verbatim>\<open>get_next_sequence\<close> computes, leave
  every group dense; the normalization of a group of fewer than 2147483647 entries does
  return, with the table as it was. (\<open>all_dense\<close> is density of every group,
  \<open>all_dense_iff\<close>.) Deletion is not among them: it removes entries and renumbers
  nothing.
\<close>

theorem density_is_kept:
  assumes st: "admissible st"
    and d: "distinct (map note_id (db_note_sequences db))" and a: "all_dense (db_note_sequences db)"
  shows "(\<forall>db'. move_note st db now n new_parent pos = Inr db' \<longrightarrow> all_dense (db_note_sequences db'))
       \<and> (\<forall>t'. normalize_note_sequences st (db_note_sequences db) p par = Inr t' \<longrightarrow> all_dense t')
       \<and> (group_size (db_note_sequences db) p par < 2147483647 \<longrightarrow>
            normalize_note_sequences st (db_note_sequences db) p par = Inr (db_note_sequences db))
       \<and> (\<forall>s db'. get_next_sequence (db_note_sequences db) projectId parentId = Inr s
              \<longrightarrow> create db noteError (Inr (Some s)) seqError cleanupError noteId projectId parentId
                    = (Inr noteId, db')
              \<longrightarrow> all_dense (db_note_sequences db'))"
proof (intro conjI allI impI)
  fix db' assume m: "move_note st db now n new_parent pos = Inr db'"
  then obtain e where f: "find (\<lambda>r. note_id r = n) (db_note_sequences db) = Some e"
    by (cases "find (\<lambda>r. note_id r = n) (db_note_sequences db)") (auto simp: move_note_def)
  from move_note_writes(1) [OF st f m] move_keeps_density [OF d f a]
  show "all_dense (db_note_sequences db')" by simp
next
  fix t' assume "normalize_note_sequences st (db_note_sequences db) p par = Inr t'"
  from normalize_writes [OF st this] normalize_keeps_density [OF d a]
  show "all_dense t'" by simp
next
  assume "group_size (db_note_sequences db) p par < 2147483647"
  moreover have "dense (db_note_sequences db) p par" using a by (simp add: all_dense_iff)
  ultimately show "normalize_note_sequences st (db_note_sequences db) p par = Inr (db_note_sequences db)"
    by (intro normalize_dense_returns [OF st d])
next
  fix s db'
  assume g: "get_next_sequence (db_note_sequences db) projectId parentId = Inr s"
    and c: "create db noteError (Inr (Some s)) seqError cleanupError noteId projectId parentId
            = (Inr noteId, db')"
  have dn: "dense (db_note_sequences db) projectId parentId" using a by (simp add: all_dense_iff)
  from sql_integer_Inr [OF g [unfolded get_next_sequence_def]]
  have s: "s = max_sequence (db_note_sequences db) projectId parentId + 1" .
  with dense_max_sequence [OF dn] have "s \<noteq> 0" by (simp add: group_size_def)
  then have o: "or_one (Some s) = s" by (simp add: or_one_def)
  from c have "db_note_sequences db' = db_note_sequences db @
      [\<lparr>note_id = noteId, project_id = projectId, parent_id = parentId, sequence = s\<rparr>]"
    by (auto simp: create_def Let_def o split: if_splits)
  with insert_keeps_density [OF a] s show "all_dense (db_note_sequences db')" by simp
qed

theorem density_is_kept_witness:
  "admissible list_order
   \<and> distinct (map note_id (db_note_sequences (store_of two_parents)))
   \<and> all_dense (db_note_sequences (store_of two_parents))
   \<and> move_note list_order (store_of two_parents) 7 2 (Some 11) 1 = Inr (stamped moved_q 5 7)
   \<and> all_dense moved_q
   \<and> normalize_note_sequences list_order two_parents 1 (Some 10) = Inr two_parents
   \<and> get_next_sequence two_parents 1 (Some 11) = Inr 2
   \<and> all_dense (two_parents @ [order_entry 4 (Some 11) 2])"
proof -
  have d: "distinct (map note_id (db_note_sequences (store_of two_parents)))" by code_simp
  have a: "all_dense (db_note_sequences (store_of two_parents))" by code_simp
  have m: "move_note list_order (store_of two_parents) 7 2 (Some 11) 1 = Inr (stamped moved_q 5 7)"
    by code_simp
  have g: "get_next_sequence (db_note_sequences (store_of two_parents)) 1 (Some 11) = Inr 2"
    by code_simp
  have b: "group_size (db_note_sequences (store_of two_parents)) 1 (Some 10) < 2147483647"
    by code_simp
  have c: "create (store_of two_parents) False (Inr (Some 2)) False False 4 1 (Some 11)
           = (Inr 4, (store_of two_parents)\<lparr>db_notes := db_notes (store_of two_parents) @ [note_of (order_entry 4 (Some 11) 2)],
                       db_note_sequences := two_parents @ [order_entry 4 (Some 11) 2]\<rparr>)"
    by code_simp
  have t: "db_note_sequences (store_of two_parents) = two_parents"
       "db_note_sequences (stamped moved_q 5 7) = moved_q" by (simp_all add: store_of_def stamped_def)
  from density_is_kept [OF list_order_admissible d a, where now = 7 and n = 2
      and new_parent = "Some 11" and pos = 1 and p = 1 and par = "Some 10" and noteError = False
      and seqError = False and cleanupError = False and noteId = 4 and projectId = 1
      and parentId = "Some 11"] m g b c
  have "all_dense moved_q \<and> normalize_note_sequences list_order two_parents 1 (Some 10) = Inr two_parents
        \<and> all_dense (two_parents @ [order_entry 4 (Some 11) 2])"
    by (simp add: t)
  with list_order_admissible d a m g show ?thesis by (simp add: t)
qed

text \<open>Against C1 as stated: deleting \<open>A\<close> from the dense root group \<open>[A:1, B:2, C:3]\<close>
  succeeds and leaves \<open>[B:2, C:3]\<close>, which is not \<open>{1, 2}\<close>.\<close>

theorem delete_leaves_gap_counterexample:
  "all_dense (db_note_sequences (store_of roots_abc))
   \<and> delete_note_tree (store_of roots_abc) 7 1 = Inr (stamped roots_bc 2 7)
   \<and> \<not> dense (db_note_sequences (stamped roots_bc 2 7)) 1 None"
  by code_simp

section \<open>Claims about the move\<close>

text \<open>
  Claim C2, as the code has it. For a note with an order entry \<open>e\<close>, in a store with
  unique note identifiers, moved within its parent, whose group is dense: when the call
  returns, the table it leaves is the spec's shift of the table of before, at the
  requested position brought into \<open>1, ..., N\<close>. That is: every other entry of the group
  between the old and the new place has moved by one towards the old place, the note
  has the position, and nothing else has changed.
\<close>

theorem move_within_parent:
  assumes st: "admissible st"
    and d: "distinct (map note_id (db_note_sequences db))"
    and f: "find (\<lambda>r. note_id r = n) (db_note_sequences db) = Some e"
    and dn: "dense (db_note_sequences db) (project_id e) (parent_id e)"
    and m: "move_note st db now n (parent_id e) pos = Inr db'"
  shows "db_note_sequences db' =
           map (spec_shift_same n (project_id e) (parent_id e) (sequence e)
                  (max 1 (min pos (group_size (db_note_sequences db) (project_id e) (parent_id e)))))
             (db_note_sequences db)"
  using move_note_writes(1) [OF st f m] move_same_parent_final [OF d f dn, of st pos] by simp

theorem move_within_parent_witness:
  "admissible list_order
   \<and> distinct (map note_id (db_note_sequences (store_of roots_abc)))
   \<and> find (\<lambda>r. note_id r = 2) (db_note_sequences (store_of roots_abc)) = Some (order_entry 2 None 2)
   \<and> dense (db_note_sequences (store_of roots_abc)) 1 None
   \<and> move_note list_order (store_of roots_abc) 7 2 None 1 = Inr (stamped moved_b 3 7)
   \<and> map (spec_shift_same 2 1 None 2 1) roots_abc = moved_b"
proof -
  have d: "distinct (map note_id (db_note_sequences (store_of roots_abc)))" by code_simp
  have f: "find (\<lambda>r. note_id r = 2) (db_note_sequences (store_of roots_abc)) = Some (order_entry 2 None 2)"
    by code_simp
  have k: "project_id (order_entry 2 None 2) = 1" "parent_id (order_entry 2 None 2) = None"
    "sequence (order_entry 2 None 2) = 2" by (simp_all add: order_entry_def)
  have dn: "dense (db_note_sequences (store_of roots_abc)) (project_id (order_entry 2 None 2))
              (parent_id (order_entry 2 None 2))" by code_simp
  have v: "move_note list_order (store_of roots_abc) 7 2 (parent_id (order_entry 2 None 2)) 1
           = Inr (stamped moved_b 3 7)" by code_simp
  have g: "max 1 (min 1 (group_size (db_note_sequences (store_of roots_abc)) 1 None)) = 1" by code_simp
  have t: "db_note_sequences (store_of roots_abc) = roots_abc"
    "db_note_sequences (stamped moved_b 3 7) = moved_b" by (simp_all add: store_of_def stamped_def)
  from move_within_parent [OF list_order_admissible d f dn v]
  have "map (spec_shift_same 2 1 None 2 1) roots_abc = moved_b"
    by (simp add: k g t)
  with list_order_admissible d f dn v show ?thesis by (simp add: k)
qed

text \<open>Against C2 as stated. In the root group \<open>[A:1, C:3]\<close>, which a deletion leaves,
  moving \<open>A\<close> to position 3 returns \<open>[A:2, C:1]\<close>: \<open>C\<close>, between the old and the new
  place, is not at 2 and \<open>A\<close> is not at 3. And among the children \<open>[P:1, Q:2, R:3]\<close> of
  \<open>X\<close>, moving \<open>R\<close> to position 1, with the rows visited in the order of the list, is
  aborted by the unique index when \<open>P\<close> is set to 2 while \<open>Q\<close> still is at 2: nothing is
  shifted.\<close>

theorem move_in_gapped_group_counterexample:
  "find (\<lambda>r. note_id r = 1) (db_note_sequences (store_of roots_gap)) = Some (order_entry 1 None 1)
   \<and> move_note list_order (store_of roots_gap) 7 1 None 3 = Inr (stamped moved_a 2 7)
   \<and> moved_a = [order_entry 1 None 2, order_entry 3 None 1]
   \<and> map (spec_shift_same 1 1 None 1 3) roots_gap = [order_entry 1 None 3, order_entry 3 None 2]
   \<and> dense (db_note_sequences (store_of three_children)) 1 (Some 10)
   \<and> move_note list_order (store_of three_children) 7 3 (Some 10) 1 = Inl UniqueViolation"
  by code_simp

text \<open>
  Claim C3, as the code has it. The same for a move to another parent, when both
  groups are dense: when the call returns, the table it leaves is the spec's shift of
  the table of before (old group closed above the old sequence, new group opened from
  the position on, note placed), at the requested position brought into
  \<open>1, ..., N + 1\<close>. The witness is scenario B: \<open>X\<close> keeps \<open>[P:1]\<close>, \<open>Y\<close> has \<open>[Q:1, R:2]\<close>.
\<close>

theorem move_to_other_parent:
  assumes st: "admissible st"
    and d: "distinct (map note_id (db_note_sequences db))"
    and f: "find (\<lambda>r. note_id r = n) (db_note_sequences db) = Some e"
    and ne: "parent_id e \<noteq> new_parent"
    and dno: "dense (db_note_sequences db) (project_id e) (parent_id e)"
    and dnn: "dense (db_note_sequences db) (project_id e) new_parent"
    and m: "move_note st db now n new_parent pos = Inr db'"
  shows "db_note_sequences db' =
           map (spec_shift_other n (project_id e) (parent_id e) (sequence e) new_parent
                  (max 1 (min pos (group_size (db_note_sequences db) (project_id e) new_parent + 1))))
             (db_note_sequences db)"
  using move_note_writes(1) [OF st f m] move_other_parent_final [OF d f ne dno dnn, of st pos] by simp

theorem move_to_other_parent_witness:
  "admissible list_order
   \<and> distinct (map note_id (db_note_sequences (store_of two_parents)))
   \<and> find (\<lambda>r. note_id r = 2) (db_note_sequences (store_of two_parents)) = Some (order_entry 2 (Some 10) 2)
   \<and> parent_id (order_entry 2 (Some 10) 2) \<noteq> Some 11
   \<and> dense (db_note_sequences (store_of two_parents)) 1 (Some 10)
   \<and> dense (db_note_sequences (store_of two_parents)) 1 (Some 11)
   \<and> move_note list_order (store_of two_parents) 7 2 (Some 11) 1 = Inr (stamped moved_q 5 7)
   \<and> map (spec_shift_other 2 1 (Some 10) 2 (Some 11) 1) two_parents = moved_q
   \<and> group_rows moved_q 1 (Some 10) = [order_entry 1 (Some 10) 1]
   \<and> group_rows moved_q 1 (Some 11) = [order_entry 2 (Some 11) 1, order_entry 3 (Some 11) 2]"
proof -
  have d: "distinct (map note_id (db_note_sequences (store_of two_parents)))" by code_simp
  have f: "find (\<lambda>r. note_id r = 2) (db_note_sequences (store_of two_parents)) = Some (order_entry 2 (Some 10) 2)"
    by code_simp
  have k: "project_id (order_entry 2 (Some 10) 2) = 1" "parent_id (order_entry 2 (Some 10) 2) = Some 10"
    "sequence (order_entry 2 (Some 10) 2) = 2" by (simp_all add: order_entry_def)
  have ne: "parent_id (order_entry 2 (Some 10) 2) \<noteq> Some 11" by code_simp
  have dno: "dense (db_note_sequences (store_of two_parents)) (project_id (order_entry 2 (Some 10) 2))
               (parent_id (order_entry 2 (Some 10) 2))" by code_simp
  have dnn: "dense (db_note_sequences (store_of two_parents)) (project_id (order_entry 2 (Some 10) 2))
               (Some 11)" by code_simp
  have v: "move_note list_order (store_of two_parents) 7 2 (Some 11) 1 = Inr (stamped moved_q 5 7)"
    by code_simp
  have g: "max 1 (min 1 (group_size (db_note_sequences (store_of two_parents)) 1 (Some 11) + 1)) = 1"
    by code_simp
  have t: "db_note_sequences (store_of two_parents) = two_parents"
    "db_note_sequences (stamped moved_q 5 7) = moved_q" by (simp_all add: store_of_def stamped_def)
  have r: "group_rows moved_q 1 (Some 10) = [order_entry 1 (Some 10) 1]"
    "group_rows moved_q 1 (Some 11) = [order_entry 2 (Some 11) 1, order_entry 3 (Some 11) 2]"
    by code_simp+
  from move_to_other_parent [OF list_order_admissible d f ne dno dnn v]
  have "map (spec_shift_other 2 1 (Some 10) 2 (Some 11) 1) two_parents = moved_q"
    by (simp add: k g t)
  with list_order_admissible d f ne dno dnn v r show ?thesis by (simp add: k)
qed

text \<open>Against C3 as stated. With the children \<open>[P:1, Q:3]\<close> of \<open>X\<close> (what a deletion
  leaves) and \<open>[R:1]\<close> of \<open>Y\<close>, moving \<open>P\<close> under \<open>Y\<close> at position 1 returns \<open>Q\<close> at 1, not
  at 2: the old group is not only closed by one above the old sequence.\<close>

theorem move_out_of_gapped_group_counterexample:
  "find (\<lambda>r. note_id r = 1) (db_note_sequences (store_of gap_parents)) = Some (order_entry 1 (Some 10) 1)
   \<and> move_note list_order (store_of gap_parents) 7 1 (Some 11) 1 = Inr (stamped moved_p 5 7)
   \<and> order_entry 2 (Some 10) 1 \<in> set moved_p
   \<and> map (spec_shift_other 1 1 (Some 10) 1 (Some 11) 1) gap_parents
       = [order_entry 10 None 1, order_entry 11 None 2,
          order_entry 1 (Some 11) 1, order_entry 2 (Some 10) 2, order_entry 3 (Some 11) 2]"
  by code_simp



text \<open>
  Claim C5, as the code has it. \<^verbatim>\<open>move_note\<close> has no short-circuit. When the note's
  group is dense, a move to its own parent and sequence goes through every step and
  leaves every order entry as it was; the timestamp of the project is written all the
  same. No step meets a check of the store: the entry's parent is a note (the foreign
  key of the stored entry), the group has fewer than 2147483647 entries and, when it
  is not the root group, fewer than 9999999, the temporary sequence.
\<close>

theorem move_to_own_place:
  assumes st: "admissible st"
    and d: "distinct (map note_id (db_note_sequences db))"
    and f: "find (\<lambda>r. note_id r = n) (db_note_sequences db) = Some e"
    and dn: "dense (db_note_sequences db) (project_id e) (parent_id e)"
    and fk: "is_note (db_notes db) (parent_id e)"
    and b: "group_size (db_note_sequences db) (project_id e) (parent_id e) < 2147483647"
    and u: "parent_id e \<noteq> None \<longrightarrow>
            group_size (db_note_sequences db) (project_id e) (parent_id e) < v_temp_sequence"
  shows "\<exists>db'. move_note st db now n (parent_id e) (sequence e) = Inr db'
           \<and> db_note_sequences db' = db_note_sequences db
           \<and> db_settings db' = sql_update (\<lambda>s. s_id s = project_id e)
                                  (\<lambda>s. s\<lparr>last_modified_at := now\<rparr>) (db_settings db)"
  using move_in_place_returns [OF st d f dn fk b u, of now] by simp

theorem move_to_own_place_witness:
  "admissible list_order
   \<and> distinct (map note_id (db_note_sequences (store_of two_parents)))
   \<and> find (\<lambda>r. note_id r = 2) (db_note_sequences (store_of two_parents)) = Some (order_entry 2 (Some 10) 2)
   \<and> dense (db_note_sequences (store_of two_parents)) 1 (Some 10)
   \<and> is_note (db_notes (store_of two_parents)) (Some 10)
   \<and> group_size (db_note_sequences (store_of two_parents)) 1 (Some 10) < v_temp_sequence
   \<and> move_note list_order (store_of two_parents) 7 2 (Some 10) 2 = Inr (stamped two_parents 5 7)"
proof -
  have d: "distinct (map note_id (db_note_sequences (store_of two_parents)))" by code_simp
  have f: "find (\<lambda>r. note_id r = 2) (db_note_sequences (store_of two_parents)) = Some (order_entry 2 (Some 10) 2)"
    by code_simp
  have k: "project_id (order_entry 2 (Some 10) 2) = 1" "parent_id (order_entry 2 (Some 10) 2) = Some 10"
    "sequence (order_entry 2 (Some 10) 2) = 2" by (simp_all add: order_entry_def)
  have dn: "dense (db_note_sequences (store_of two_parents)) (project_id (order_entry 2 (Some 10) 2))
              (parent_id (order_entry 2 (Some 10) 2))" by code_simp
  have fk: "is_note (db_notes (store_of two_parents)) (parent_id (order_entry 2 (Some 10) 2))"
    by code_simp
  have b: "group_size (db_note_sequences (store_of two_parents)) (project_id (order_entry 2 (Some 10) 2))
             (parent_id (order_entry 2 (Some 10) 2)) < 2147483647" by code_simp
  have u: "group_size (db_note_sequences (store_of two_parents)) (project_id (order_entry 2 (Some 10) 2))
             (parent_id (order_entry 2 (Some 10) 2)) < v_temp_sequence" by code_simp
  from move_to_own_place [OF list_order_admissible d f dn fk b, of 7] u obtain db' where
    r: "move_note list_order (store_of two_parents) 7 2 (Some 10) 2 = Inr db'"
    and s: "db_note_sequences db' = db_note_sequences (store_of two_parents)"
    by (auto simp: k)
  have v: "move_note list_order (store_of two_parents) 7 2 (Some 10) 2 = Inr (stamped two_parents 5 7)"
    by code_simp
  from dn fk u have "dense (db_note_sequences (store_of two_parents)) 1 (Some 10)
      \<and> is_note (db_notes (store_of two_parents)) (Some 10)
      \<and> group_size (db_note_sequences (store_of two_parents)) 1 (Some 10) < v_temp_sequence"
    by (simp add: k)
  with list_order_admissible d f v show ?thesis by simp
qed

text \<open>Against C5 as stated: in the root group \<open>[A:1, C:3]\<close>, moving \<open>A\<close> to its own parent
  and sequence renumbers \<open>C\<close> from 3 to 2; and in the dense root group \<open>[A:1, B:2, C:3]\<close>,
  moving \<open>B\<close> to its own parent and sequence writes the project's timestamp.\<close>

theorem move_in_place_renumbers_counterexample:
  "find (\<lambda>r. note_id r = 1) (db_note_sequences (store_of roots_gap)) = Some (order_entry 1 None 1)
   \<and> move_note list_order (store_of roots_gap) 7 1 None 1
       = Inr (stamped [order_entry 1 None 1, order_entry 3 None 2] 2 7)
   \<and> db_note_sequences (stamped [order_entry 1 None 1, order_entry 3 None 2] 2 7)
       \<noteq> db_note_sequences (store_of roots_gap)
   \<and> find (\<lambda>r. note_id r = 2) (db_note_sequences (store_of roots_abc)) = Some (order_entry 2 None 2)
   \<and> move_note list_order (store_of roots_abc) 7 2 None 2 = Inr (stamped roots_abc 3 7)
   \<and> stamped roots_abc 3 7 \<noteq> store_of roots_abc"
  by code_simp

text \<open>
  Claim C6, as the code has it. \<^verbatim>\<open>move_note\<close> has no cycle rule and no \<^verbatim>\<open>InvalidMove\<close>
  among its outcomes. For a note without an order entry it raises the not-found
  exception. Whenever it returns, the note's order entry and the note's row are under
  the requested parent, whatever that parent is (the note itself or one of its
  descendants included).
\<close>

theorem move_note_has_no_cycle_check:
  assumes st: "admissible st"
  shows "(n \<notin> note_id ` set (db_note_sequences db) \<longrightarrow>
            move_note st db now n new_parent pos = Inl (NoteNotFound n))
       \<and> (\<forall>db'. move_note st db now n new_parent pos = Inr db' \<longrightarrow>
            (\<forall>r\<in>set (db_note_sequences db'). note_id r = n \<longrightarrow> parent_id r = new_parent)
          \<and> (\<forall>x\<in>set (db_notes db'). n_id x = n \<longrightarrow> n_parent_id x = new_parent))"
proof (intro conjI allI impI)
  assume "n \<notin> note_id ` set (db_note_sequences db)"
  then show "move_note st db now n new_parent pos = Inl (NoteNotFound n)"
    by (rule move_note_not_found)
next
  fix db' assume m: "move_note st db now n new_parent pos = Inr db'"
  then obtain e where f: "find (\<lambda>r. note_id r = n) (db_note_sequences db) = Some e"
    by (cases "find (\<lambda>r. note_id r = n) (db_note_sequences db)") (auto simp: move_note_def)
  from move_note_writes(1) [OF st f m]
  show "\<forall>r\<in>set (db_note_sequences db'). note_id r = n \<longrightarrow> parent_id r = new_parent"
    by (auto dest: moved_entry_parent)
  have w: "db_notes db' = map (\<lambda>x. if n_id x = n then x\<lparr>n_parent_id := new_parent\<rparr> else x) (db_notes db)"
    using move_note_writes(2) [OF st f m] by (simp add: sql_update_def)
  show "\<forall>x\<in>set (db_notes db'). n_id x = n \<longrightarrow> n_parent_id x = new_parent"
  proof (intro ballI impI)
    fix x assume xs: "x \<in> set (db_notes db')" and x: "n_id x = n"
    from xs have "x \<in> (\<lambda>x. if n_id x = n then x\<lparr>n_parent_id := new_parent\<rparr> else x) ` set (db_notes db)"
      by (simp only: w set_map)
    then obtain y where y: "x = (if n_id y = n then y\<lparr>n_parent_id := new_parent\<rparr> else y)"
      by (rule imageE)
    show "n_parent_id x = new_parent"
    proof (cases "n_id y = n")
      case True
      with y show ?thesis by simp
    next
      case False
      with y have "x = y" by simp
      with x False show ?thesis by simp
    qed
  qed
qed

theorem move_note_has_no_cycle_check_witness:
  "admissible list_order
   \<and> 99 \<notin> note_id ` set (db_note_sequences (store_of parent_child))
   \<and> move_note list_order (store_of parent_child) 7 99 (Some 1) 1 = Inl (NoteNotFound 99)
   \<and> move_note list_order (store_of parent_child) 7 10 (Some 1) 1 = Inr cycle_store
   \<and> order_entry 10 (Some 1) 1 \<in> set (db_note_sequences cycle_store)"
proof -
  have h: "99 \<notin> note_id ` set (db_note_sequences (store_of parent_child))" by code_simp
  have v: "move_note list_order (store_of parent_child) 7 10 (Some 1) 1 = Inr cycle_store" by code_simp
  from move_note_has_no_cycle_check [OF list_order_admissible, of 99 "store_of parent_child" 7 "Some 1" 1] h
  have a: "move_note list_order (store_of parent_child) 7 99 (Some 1) 1 = Inl (NoteNotFound 99)" by simp
  from move_note_has_no_cycle_check [OF list_order_admissible, of 10 "store_of parent_child" 7 "Some 1" 1] v
  have "\<forall>r\<in>set (db_note_sequences cycle_store). note_id r = 10 \<longrightarrow> parent_id r = Some 1" by simp
  moreover have "order_entry 10 (Some 1) 1 \<in> set (db_note_sequences cycle_store)" by code_simp
  ultimately show ?thesis using list_order_admissible h a v by simp
qed

text \<open>Against C6 as stated: \<open>P\<close> is a descendant of \<open>X\<close>, and moving \<open>X\<close> under \<open>P\<close>
  returns normally with the store changed.\<close>

theorem move_under_descendant_counterexample:
  "references (Some 1) (descendants (db_notes (store_of parent_child)) 10)
   \<and> move_note list_order (store_of parent_child) 7 10 (Some 1) 1 = Inr cycle_store
   \<and> cycle_store \<noteq> store_of parent_child"
  by code_simp

section \<open>Claims about deletion, normalization and creation\<close>

text \<open>
  Claim C7, as the code has it. \<^verbatim>\<open>delete_note_tree\<close> reports nothing: every call returns
  normally, also when the traversal stops at depth 50. The notes it leaves are notes of
  the store, none of them collected, and none of them has a removed parent: the
  foreign keys remove what lies below the cap.
\<close>

theorem delete_note_tree_never_reports:
  "\<exists>db'. delete_note_tree db now root = Inr db'
     \<and> (\<forall>n\<in>set (db_notes db'). n \<in> set (db_notes db)
           \<and> n_id n \<notin> set (descendants (db_notes db) root)
           \<and> \<not> references (n_parent_id n) (removed_ids (db_notes db) (db_notes db')))"
proof -
  obtain db' where r: "delete_note_tree db now root = Inr db'"
    by (simp add: delete_note_tree_def Let_def)
  from delete_note_tree_result [OF r]
  have n: "db_notes db' = delete_notes (db_notes db) (descendants (db_notes db) root)" by simp
  have "\<forall>n\<in>set (db_notes db'). n \<in> set (db_notes db)
           \<and> n_id n \<notin> set (descendants (db_notes db) root)
           \<and> \<not> references (n_parent_id n) (removed_ids (db_notes db) (db_notes db'))"
    unfolding n using delete_notes_closed by blast
  with r show ?thesis by blast
qed

theorem delete_note_tree_never_reports_witness:
  "delete_note_tree (store_of two_parents) 7 10 = Inr two_parents_without_x
   \<and> note_of (order_entry 3 (Some 11) 1) \<in> set (db_notes two_parents_without_x)
   \<and> \<not> references (Some 11) (removed_ids (db_notes (store_of two_parents)) (db_notes two_parents_without_x))"
proof -
  have v: "delete_note_tree (store_of two_parents) 7 10 = Inr two_parents_without_x" by code_simp
  have m: "note_of (order_entry 3 (Some 11) 1) \<in> set (db_notes two_parents_without_x)" by code_simp
  have p: "n_parent_id (note_of (order_entry 3 (Some 11) 1)) = Some 11" by code_simp
  from delete_note_tree_never_reports [of "store_of two_parents" 7 10] v
  have "\<forall>n\<in>set (db_notes two_parents_without_x).
          \<not> references (n_parent_id n) (removed_ids (db_notes (store_of two_parents)) (db_notes two_parents_without_x))"
    by auto
  with m p have "\<not> references (Some 11) (removed_ids (db_notes (store_of two_parents)) (db_notes two_parents_without_x))"
    by metis
  with v m show ?thesis by simp
qed

text \<open>Against C7 as stated: on a chain of 51 notes the traversal reaches depth 50 and
  leaves note 51 out of the collected set; the call returns normally.\<close>

theorem depth_cap_counterexample:
  "descendants (db_notes (store_of (chain 51))) 1 = [1..<51]
   \<and> 51 \<in> n_id ` set (db_notes (store_of (chain 51)))
   \<and> delete_note_tree (store_of (chain 51)) 7 1 = Inr (stamped [] 0 7)"
  by code_simp

text \<open>
  Claim C8, as the code has it. With unique note identifiers, a call of
  \<^verbatim>\<open>normalize_note_sequences\<close> that returns has rewritten the sequences of its group and
  nothing else; the new sequences are exactly \<open>1, ..., N\<close> and ascend with the old ones.
  The query orders by sequence alone: between entries of equal sequence the order is
  the store's, and nothing is promised by note identifier.
\<close>

theorem normalize_orders_by_sequence:
  assumes st: "admissible st" and d: "distinct (map note_id t)"
    and r: "normalize_note_sequences st t p par = Inr t'"
  shows "(\<exists>rk. t' = sql_update (in_group p par) (\<lambda>r. r\<lparr>sequence := rk (note_id r)\<rparr>) t
            \<and> (\<forall>a\<in>set (group_rows t p par). \<forall>b\<in>set (group_rows t p par).
                 sequence a < sequence b \<longrightarrow> rk (note_id a) < rk (note_id b)))
       \<and> dense t' p par"
  using normalize_monotone [OF d, of st p par] dense_normalize [OF d, of st p par]
  unfolding normalize_writes [OF st r, symmetric] by blast

theorem normalize_orders_by_sequence_witness:
  "admissible list_order
   \<and> distinct (map note_id roots_tied)
   \<and> normalize_note_sequences list_order roots_tied 1 None
       = Inr [order_entry 1 None 2, order_entry 2 None 3, order_entry 3 None 1]
   \<and> dense [order_entry 1 None 2, order_entry 2 None 3, order_entry 3 None 1] 1 None"
proof -
  have d: "distinct (map note_id roots_tied)" by code_simp
  have v: "normalize_note_sequences list_order roots_tied 1 None
           = Inr [order_entry 1 None 2, order_entry 2 None 3, order_entry 3 None 1]" by code_simp
  from normalize_orders_by_sequence [OF list_order_admissible d v]
  have "dense [order_entry 1 None 2, order_entry 2 None 3, order_entry 3 None 1] 1 None" by blast
  with list_order_admissible d v show ?thesis by simp
qed

text \<open>Against C8 as stated: the group \<open>[A:2, B:2, C:1]\<close> does not normalize to
  \<open>[C:1, A:2, B:2]\<close>. The loop never leaves a duplicate, and nothing orders the tied
  entries by identifier: in a store that returns tied rows in the order of the table,
  with the row of \<open>B\<close> stored before the row of \<open>A\<close>, \<open>B\<close> gets 2 and \<open>A\<close>, of the smaller
  identifier, gets 3; with \<open>A\<close> first, \<open>A\<close> gets 2 and \<open>B\<close> gets 3.\<close>

theorem tied_sequences_counterexample:
  "normalize_note_sequences list_order roots_tied_b_first 1 None
     = Inr [order_entry 2 None 2, order_entry 1 None 3, order_entry 3 None 1]
   \<and> normalize_note_sequences list_order roots_tied 1 None
     = Inr [order_entry 1 None 2, order_entry 2 None 3, order_entry 3 None 1]
   \<and> normalize_note_sequences list_order roots_tied 1 None
     \<noteq> Inr [order_entry 1 None 2, order_entry 2 None 2, order_entry 3 None 1]"
  by code_simp

text \<open>
  Claim C9, as the code has it. A deletion rewrites no order entry: the entries after
  it are entries of before, in their order. An entry of a surviving note is still
  there, with its parent and its sequence, when the parent it names is not a removed
  note; that is so when it names the parent that the note's row names.
\<close>

theorem delete_note_tree_frame:
  assumes d: "distinct (map n_id (db_notes db))" and r: "delete_note_tree db now root = Inr db'"
  shows "(\<exists>P. db_note_sequences db' = filter P (db_note_sequences db))
       \<and> (\<forall>r\<in>set (db_note_sequences db). \<forall>n\<in>set (db_notes db').
            note_id r = n_id n
            \<and> (parent_id r = n_parent_id n
               \<or> \<not> references (parent_id r) (removed_ids (db_notes db) (db_notes db')))
            \<longrightarrow> r \<in> set (db_note_sequences db'))"
proof -
  let ?ids = "descendants (db_notes db) root"
  let ?rm = "removed_ids (db_notes db) (db_notes db')"
  from delete_note_tree_result [OF r] have
    n: "db_notes db' = delete_notes (db_notes db) ?ids"
    and s: "db_note_sequences db' =
            cascade_sequences (sql_delete (\<lambda>r. note_id r \<in> set ?ids) (db_note_sequences db)) ?rm"
    by auto
  have "db_note_sequences db' =
        filter (\<lambda>r. \<not> (note_id r \<in> set ?rm \<or> references (parent_id r) ?rm) \<and> note_id r \<notin> set ?ids)
          (db_note_sequences db)"
    unfolding s by (auto simp: cascade_sequences_def sql_delete_def intro: filter_cong)
  then have a: "\<exists>P. db_note_sequences db' = filter P (db_note_sequences db)" by blast
  have b: "e \<in> set (db_note_sequences db')"
    if e: "e \<in> set (db_note_sequences db)" and m: "m \<in> set (db_notes db')"
      and k: "note_id e = n_id m"
      and k': "parent_id e = n_parent_id m \<or> \<not> references (parent_id e) ?rm" for e m
  proof -
    from m have m': "m \<in> set (delete_notes (db_notes db) ?ids)" by (simp add: n)
    have sub: "set (db_notes db') \<subseteq> set (db_notes db)"
      unfolding n using delete_notes_closed(1) by blast
    have 1: "n_id m \<notin> set ?ids" using delete_notes_closed(2) [OF m'] .
    have "\<not> references (n_parent_id m) ?rm" using delete_notes_closed(3) [OF m'] by (simp add: n)
    with k' have 2: "\<not> references (parent_id e) ?rm" by auto
    have 3: "n_id m \<notin> set ?rm" using survivor_not_removed [OF d m sub] .
    from e 1 2 3 k show ?thesis unfolding s by (simp add: cascade_sequences_def sql_delete_def)
  qed
  from a b show ?thesis by blast
qed

theorem delete_note_tree_frame_witness:
  "distinct (map n_id (db_notes (store_of roots_abc)))
   \<and> delete_note_tree (store_of roots_abc) 7 1 = Inr (stamped roots_bc 2 7)
   \<and> order_entry 3 None 3 \<in> set (db_note_sequences (stamped roots_bc 2 7))"
proof -
  have d: "distinct (map n_id (db_notes (store_of roots_abc)))" by code_simp
  have v: "delete_note_tree (store_of roots_abc) 7 1 = Inr (stamped roots_bc 2 7)" by code_simp
  have e: "order_entry 3 None 3 \<in> set (db_note_sequences (store_of roots_abc))" by code_simp
  have m: "note_of (order_entry 3 None 3) \<in> set (db_notes (stamped roots_bc 2 7))" by code_simp
  have k: "note_id (order_entry 3 None 3) = n_id (note_of (order_entry 3 None 3))
           \<and> parent_id (order_entry 3 None 3) = n_parent_id (note_of (order_entry 3 None 3))"
    by code_simp
  from delete_note_tree_frame [OF d v] e m k
  have "order_entry 3 None 3 \<in> set (db_note_sequences (stamped roots_bc 2 7))" by blast
  with d v show ?thesis by simp
qed

text \<open>Against C9 as stated: note 2 is not in the subtree of \<open>X\<close> by the \<^verbatim>\<open>notes\<close> table,
  which the traversal reads, and it survives the deletion of that subtree; its order
  entry, which names \<open>X\<close> as parent, does not.\<close>

theorem entry_of_survivor_removed_counterexample:
  "distinct (map n_id (db_notes unmirrored))
   \<and> 2 \<notin> set (descendants (db_notes unmirrored) 10)
   \<and> order_entry 2 (Some 10) 1 \<in> set (db_note_sequences unmirrored)
   \<and> delete_note_tree unmirrored 7 10 = Inr unmirrored_without_x
   \<and> 2 \<in> n_id ` set (db_notes unmirrored_without_x)
   \<and> order_entry 2 (Some 10) 1 \<notin> set (db_note_sequences unmirrored_without_x)"
  by code_simp

text \<open>
  Claim C10, as the code has it. When the note row was inserted, the next sequence
  was obtained and the insert of the order entry is refused, \<^verbatim>\<open>create\<close> asks the store to
  delete the note row and fails with the sequence error. When the store carries the
  deletion out, the store \<^verbatim>\<open>create\<close> leaves has no note of the new identifier, and when
  the identifier was new to the store, it is the store of before the call.
\<close>

theorem create_removes_note_on_sequence_failure:
  assumes "\<not> noteError" and "next_sequence = Inr s" and "seqError" and "\<not> cleanupError"
  shows "fst (create db noteError next_sequence seqError cleanupError noteId projectId parentId)
           = Inl FailedToCreateNoteSequence
       \<and> noteId \<notin> n_id ` set (db_notes (snd (create db noteError next_sequence seqError cleanupError
                                               noteId projectId parentId)))
       \<and> (noteId \<notin> n_id ` set (db_notes db)
            \<and> (\<forall>n\<in>set (db_notes db). n_parent_id n \<noteq> Some noteId)
            \<and> (\<forall>r\<in>set (db_note_sequences db). note_id r \<noteq> noteId \<and> parent_id r \<noteq> Some noteId)
          \<longrightarrow> snd (create db noteError next_sequence seqError cleanupError noteId projectId parentId) = db)"
proof -
  let ?new = "\<lparr>n_id = noteId, n_project_id = projectId, n_parent_id = parentId\<rparr>"
  let ?db1 = "db\<lparr>db_notes := db_notes db @ [?new]\<rparr>"
  have c: "create db noteError next_sequence seqError cleanupError noteId projectId parentId
           = (Inl FailedToCreateNoteSequence, delete_from_notes ?db1 [noteId])"
    using assms by (simp add: create_def)
  have a: "noteId \<notin> n_id ` set (db_notes (delete_from_notes ?db1 [noteId]))"
    using delete_from_notes_absent [of _ ?db1 "[noteId]"] by auto
  have b: "delete_from_notes ?db1 [noteId] = db"
    if f: "noteId \<notin> n_id ` set (db_notes db)"
      and p: "\<forall>n\<in>set (db_notes db). n_parent_id n \<noteq> Some noteId"
      and r: "\<forall>r\<in>set (db_note_sequences db). note_id r \<noteq> noteId \<and> parent_id r \<noteq> Some noteId"
  proof -
    have k: "filter (\<lambda>n. n_id n \<noteq> noteId) (db_notes db) = db_notes db"
      using f by (auto simp: filter_id_conv)
    have k': "filter (\<lambda>n. n_id n = noteId) (db_notes db) = []"
      using f by (auto simp: filter_empty_conv)
    have "cascade_notes (db_notes db) [noteId] = db_notes db"
      using p by (intro cascade_notes_none) (auto simp: references_def split: option.splits)
    then have n: "delete_notes (db_notes db @ [?new]) [noteId] = db_notes db"
      by (simp add: delete_notes_def sql_delete_def k k')
    have "?new \<notin> set (db_notes db)" using f by force
    then have rm: "removed_ids (db_notes db @ [?new]) (db_notes db) = [noteId]"
      by (simp add: removed_ids_def)
    have "cascade_sequences (db_note_sequences db) [noteId] = db_note_sequences db"
      using r by (auto simp: cascade_sequences_def sql_delete_def references_def filter_id_conv
          split: option.splits)
    then show ?thesis by (simp add: delete_from_notes_def n rm)
  qed
  from a b show ?thesis unfolding c by simp
qed

theorem create_removes_note_on_sequence_failure_witness:
  "\<not> False \<and> (Inr (Some 3) :: ts_error + int option) = Inr (Some 3) \<and> True \<and> \<not> False
   \<and> create (store_of roots_ab) False (Inr (Some 3)) True False 9 1 None
       = (Inl FailedToCreateNoteSequence, store_of roots_ab)"
proof -
  have f: "9 \<notin> n_id ` set (db_notes (store_of roots_ab))
           \<and> (\<forall>n\<in>set (db_notes (store_of roots_ab)). n_parent_id n \<noteq> Some 9)
           \<and> (\<forall>r\<in>set (db_note_sequences (store_of roots_ab)). note_id r \<noteq> 9 \<and> parent_id r \<noteq> Some 9)"
    by code_simp
  from create_removes_note_on_sequence_failure
         [of False "Inr (Some 3)" "Some 3" True False "store_of roots_ab" 9 1 None] f
  have "fst (create (store_of roots_ab) False (Inr (Some 3)) True False 9 1 None) = Inl FailedToCreateNoteSequence
        \<and> snd (create (store_of roots_ab) False (Inr (Some 3)) True False 9 1 None) = store_of roots_ab"
    by blast
  then show ?thesis by (simp add: prod_eq_iff)
qed

text \<open>Against C10 as stated: when \<^verbatim>\<open>getNextSequence\<close> rejects after the note row was
  inserted, \<^verbatim>\<open>create\<close> fails without a cleaning request, and when the store refuses the
  cleaning \<^verbatim>\<open>delete\<close>, \<^verbatim>\<open>create\<close> does not notice: either way the store keeps the note 9
  without an order entry.\<close>

theorem note_left_without_entry_counterexample:
  "create (store_of roots_ab) False (Inl Rejected) False False 9 1 None
     = (Inl Rejected, (store_of roots_ab)\<lparr>db_notes := db_notes (store_of roots_ab) @
                         [\<lparr>n_id = 9, n_project_id = 1, n_parent_id = None\<rparr>]\<rparr>)
   \<and> create (store_of roots_ab) False (Inr (Some 3)) True True 9 1 None
     = (Inl FailedToCreateNoteSequence,
        (store_of roots_ab)\<lparr>db_notes := db_notes (store_of roots_ab) @
                         [\<lparr>n_id = 9, n_project_id = 1, n_parent_id = None\<rparr>]\<rparr>)
   \<and> 9 \<in> n_id ` set (db_notes ((store_of roots_ab)\<lparr>db_notes := db_notes (store_of roots_ab) @
                         [\<lparr>n_id = 9, n_project_id = 1, n_parent_id = None\<rparr>]\<rparr>))
   \<and> 9 \<notin> note_id ` set (db_note_sequences ((store_of roots_ab)\<lparr>db_notes := db_notes (store_of roots_ab) @
                         [\<lparr>n_id = 9, n_project_id = 1, n_parent_id = None\<rparr>]\<rparr>))"
  by code_simp

end
